theory Spec2Isabelle
  imports Main "HOL-Library.Word" "HOL-Library.Log_Nat" "HOL-Library.AList" "HOL-Library.Multiset"
begin

text \<open>
  A model of the module that exports \<open>synopsize\<close>, in the version that gives every
  type a comparator: the values and the built-in operations of JavaScript that the
  module uses, then its functions in the order of the source, then their properties.
\<close>

section \<open>Strings and values\<close>

text \<open>
  A JavaScript string is a sequence of 16-bit code units. A column cell is either a
  string or the value \<open>undefined\<close> (a record of the CSV parser that lacks the field).
  \<open>js\<close> writes an ASCII literal as a JavaScript string.
\<close>

type_synonym jschar = "16 word"
type_synonym jsstring = "jschar list"

definition js :: "string \<Rightarrow> jsstring" where
  "js s = map (\<lambda>c. of_nat (of_char c)) s"

datatype jsvalue = Undefined | Str jsstring

text \<open>\<^verbatim>\<open>String(value)\<close>: the string itself, and the nine letters \<^verbatim>\<open>undefined\<close> for
  the undefined value.\<close>

fun String :: "jsvalue \<Rightarrow> jsstring" where
  "String Undefined = js ''undefined''"
| "String (Str s) = s"

datatype error = TypeError

section \<open>Regular expressions\<close>

text \<open>
  The regular expressions of the source are transcribed constructor by constructor.
  \<open>Repeat lo hi r\<close> is the quantifier \<^verbatim>\<open>{lo,hi}\<close> (\<open>None\<close> for no upper bound), so
  \<^verbatim>\<open>?\<close>, \<^verbatim>\<open>*\<close> and \<^verbatim>\<open>+\<close> are \<open>Opt\<close>, \<open>Star\<close> and \<open>Plus\<close>. \<open>Group n r\<close> is the
  n-th capturing group and \<open>Backref n\<close> is \<^verbatim>\<open>\n\<close>.
\<close>

datatype RegExp =
    Chr jschar
  | OneOf jsstring
  | Range jschar jschar
  | Digit
  | Space
  | Dot
  | Bol
  | Eol
  | Cat "RegExp list"
  | Alt "RegExp list"
  | Repeat nat "nat option" RegExp
  | Group nat RegExp
  | Backref nat

abbreviation Opt :: "RegExp \<Rightarrow> RegExp" where "Opt r \<equiv> Repeat 0 (Some 1) r"
abbreviation Star :: "RegExp \<Rightarrow> RegExp" where "Star r \<equiv> Repeat 0 None r"
abbreviation Plus :: "RegExp \<Rightarrow> RegExp" where "Plus r \<equiv> Repeat 1 None r"
abbreviation Lit :: "char \<Rightarrow> RegExp" where "Lit c \<equiv> Chr (of_nat (of_char c))"

text \<open>The character classes of ECMAScript: \<^verbatim>\<open>\d\<close> is \<^verbatim>\<open>[0-9]\<close>, \<^verbatim>\<open>\s\<close> is WhiteSpace
  or LineTerminator, and \<^verbatim>\<open>.\<close> is anything but a LineTerminator.\<close>

definition isDigit :: "jschar \<Rightarrow> bool" where
  "isDigit c = (0x30 \<le> c \<and> c \<le> 0x39)"

definition isWhiteSpace :: "jschar \<Rightarrow> bool" where
  "isWhiteSpace c =
     (c \<in> {0x9, 0xB, 0xC, 0x20, 0xA0, 0x1680, 0x202F, 0x205F, 0x3000, 0xFEFF}
      \<or> (0x2000 \<le> c \<and> c \<le> 0x200A))"

definition isLineTerminator :: "jschar \<Rightarrow> bool" where
  "isLineTerminator c = (c \<in> {0xA, 0xD, 0x2028, 0x2029})"

definition isSpace :: "jschar \<Rightarrow> bool" where
  "isSpace c = (isWhiteSpace c \<or> isLineTerminator c)"

text \<open>
  A matcher state is the index reached in the input, the input still to read and the
  captures made so far. \<open>run r st\<close> lists every state in which a match of \<open>r\<close> started
  in \<open>st\<close> can end: the backtracking matcher of ECMAScript finds a match exactly when
  one of these ways goes through, which is all that \<^verbatim>\<open>RegExp.prototype.test\<close> reports.
  An unbounded quantifier is run for at most as many further rounds as there are
  characters left, since a round that reads nothing adds no new state.
\<close>

type_synonym mstate = "nat \<times> jsstring \<times> (nat \<times> jsstring) list"

definition step_char :: "(jschar \<Rightarrow> bool) \<Rightarrow> mstate \<Rightarrow> mstate list" where
  "step_char P st = (case st of (i, s, cs) \<Rightarrow>
     (case s of [] \<Rightarrow> [] | x # xs \<Rightarrow> if P x then [(Suc i, xs, cs)] else []))"

fun repeat_run :: "(mstate \<Rightarrow> mstate list) \<Rightarrow> nat \<Rightarrow> nat \<Rightarrow> mstate \<Rightarrow> mstate list" where
  "repeat_run f 0 0 st = [st]"
| "repeat_run f 0 (Suc k) st = concat (map (repeat_run f 0 k) (f st)) @ [st]"
| "repeat_run f (Suc n) k st = concat (map (repeat_run f n k) (f st))"

fun run :: "RegExp \<Rightarrow> mstate \<Rightarrow> mstate list" where
  "run (Chr c) st = step_char (\<lambda>x. x = c) st"
| "run (OneOf cs) st = step_char (\<lambda>x. x \<in> set cs) st"
| "run (Range a b) st = step_char (\<lambda>x. a \<le> x \<and> x \<le> b) st"
| "run Digit st = step_char isDigit st"
| "run Space st = step_char isSpace st"
| "run Dot st = step_char (\<lambda>x. \<not> isLineTerminator x) st"
| "run Bol st = (if fst st = 0 then [st] else [])"
| "run Eol st = (if fst (snd st) = [] then [st] else [])"
| "run (Cat rs) st = foldl (\<lambda>sts r. concat (map (run r) sts)) [st] rs"
| "run (Alt rs) st = concat (map (\<lambda>r. run r st) rs)"
| "run (Repeat lo hi r) st =
     repeat_run (run r) lo (case hi of None \<Rightarrow> length (fst (snd st)) | Some h \<Rightarrow> h - lo) st"
| "run (Group n r) st = (case st of (i, s, cs) \<Rightarrow>
     map (\<lambda>(j, t, cs'). (j, t, AList.update n (take (j - i) s) cs')) (run r (i, s, cs)))"
| "run (Backref n) st = (case st of (i, s, cs) \<Rightarrow>
     (case map_of cs n of
        None \<Rightarrow> [st]
      | Some u \<Rightarrow>
          if take (length u) s = u then [(i + length u, drop (length u) s, cs)] else []))"

text \<open>\<^verbatim>\<open>regExp.test(s)\<close> without the global flag: a match may start at any index.\<close>

definition RegExp_test :: "RegExp \<Rightarrow> jsstring \<Rightarrow> bool" where
  "RegExp_test r s = list_ex (\<lambda>i. run r (i, drop i s, []) \<noteq> []) [0..<Suc (length s)]"

section \<open>Numbers\<close>

text \<open>
  A Number is an IEEE 754 double. Every finite double is an integer multiple of
  \<open>2\<^sup>-\<^sup>1\<^sup>0\<^sup>7\<^sup>4\<close>, so \<open>Finite k\<close> stands for \<open>k \<times> 2\<^sup>-\<^sup>1\<^sup>0\<^sup>7\<^sup>4\<close>; \<open>Infinity True\<close> is
  \<open>-\<infinity>\<close>. The sign of a zero is not kept: the sort reads a comparator's result only
  through \<open>v < 0\<close> and \<open>v > 0\<close>, which do not tell the two zeros apart.
\<close>

datatype number = NaN | Infinity bool | Finite int

definition number_of_int :: "int \<Rightarrow> number" where
  "number_of_int n = Finite (n * 2 ^ 1074)"

text \<open>\<open>roundTiesToEven p q\<close> is the integer nearest to \<open>p / q\<close>, the even one of two
  that are equally near. \<open>roundDouble p q\<close> is the double nearest to \<open>p / q\<close>, both in
  units of \<open>2\<^sup>-\<^sup>1\<^sup>0\<^sup>7\<^sup>4\<close>: a quotient of \<open>53 + s\<close> bits keeps its leading 53 bits.\<close>

definition roundTiesToEven :: "nat \<Rightarrow> nat \<Rightarrow> nat" where
  "roundTiesToEven p q =
     (let f = p div q; r = p mod q
      in if 2 * r < q \<or> (2 * r = q \<and> even f) then f else f + 1)"

definition roundDouble :: "nat \<Rightarrow> nat \<Rightarrow> nat" where
  "roundDouble p q =
     (let s = floorlog 2 (p div q) - 53 in roundTiesToEven p (q * 2 ^ s) * 2 ^ s)"

definition number_of_ratio :: "bool \<Rightarrow> nat \<Rightarrow> nat \<Rightarrow> number" where
  "number_of_ratio neg p q =
     (let k = roundDouble p q
      in if 2 ^ 2098 \<le> k then Infinity neg
         else Finite (if neg then - int k else int k))"

text \<open>The value \<open>m \<times> 10\<^sup>e\<close> of a decimal literal, rounded to a double.\<close>

definition number_of_decimal :: "bool \<Rightarrow> nat \<Rightarrow> int \<Rightarrow> number" where
  "number_of_decimal neg m e =
     (if 0 \<le> e then number_of_ratio neg (m * 10 ^ nat e * 2 ^ 1074) 1
      else number_of_ratio neg (m * 2 ^ 1074) (10 ^ nat (- e)))"

text \<open>The subtraction of two doubles: the exact difference, rounded.\<close>

fun number_minus :: "number \<Rightarrow> number \<Rightarrow> number" where
  "number_minus NaN y = NaN"
| "number_minus x NaN = NaN"
| "number_minus (Infinity s) (Infinity t) = (if s = t then NaN else Infinity s)"
| "number_minus (Infinity s) (Finite b) = Infinity s"
| "number_minus (Finite a) (Infinity t) = Infinity (\<not> t)"
| "number_minus (Finite a) (Finite b) = number_of_ratio (a < b) (nat \<bar>a - b\<bar>) 1"

fun is_positive :: "number \<Rightarrow> bool" where
  "is_positive NaN = False"
| "is_positive (Infinity s) = (\<not> s)"
| "is_positive (Finite k) = (0 < k)"

fun is_negative :: "number \<Rightarrow> bool" where
  "is_negative NaN = False"
| "is_negative (Infinity s) = s"
| "is_negative (Finite k) = (k < 0)"

subsection \<open>The conversion of a string to a Number\<close>

text \<open>
  \<^verbatim>\<open>a - b\<close> converts both operands with ToNumber. On a string this is the grammar
  StringNumericLiteral of ECMAScript: white space around an optional literal, which is
  a signed decimal literal (with \<^verbatim>\<open>Infinity\<close>, a fraction and an exponent) or an unsigned
  binary, octal or hexadecimal integer; the empty literal is 0 and anything else is NaN.
\<close>

definition trim :: "jsstring \<Rightarrow> jsstring" where
  "trim s = rev (dropWhile isSpace (rev (dropWhile isSpace s)))"

definition digitValue :: "jschar \<Rightarrow> nat" where
  "digitValue c =
     (if 0x30 \<le> c \<and> c \<le> 0x39 then unat c - 0x30
      else if 0x61 \<le> c \<and> c \<le> 0x66 then unat c - 0x61 + 10
      else if 0x41 \<le> c \<and> c \<le> 0x46 then unat c - 0x41 + 10
      else 16)"

definition digitsValue :: "nat \<Rightarrow> jsstring \<Rightarrow> nat" where
  "digitsValue base ds = foldl (\<lambda>n c. base * n + digitValue c) 0 ds"

definition isDigits :: "nat \<Rightarrow> jsstring \<Rightarrow> bool" where
  "isDigits base ds = (ds \<noteq> [] \<and> list_all (\<lambda>c. digitValue c < base) ds)"

definition radixPrefix :: "jsstring \<Rightarrow> (nat \<times> jsstring) option" where
  "radixPrefix t =
     (case t of
        z # x # ds \<Rightarrow>
          if z \<noteq> 0x30 then None
          else if x = 0x62 \<or> x = 0x42 then Some (2, ds)
          else if x = 0x6F \<or> x = 0x4F then Some (8, ds)
          else if x = 0x78 \<or> x = 0x58 then Some (16, ds)
          else None
      | _ \<Rightarrow> None)"

definition SignedInteger :: "jsstring \<Rightarrow> int option" where
  "SignedInteger t =
     (case t of
        [] \<Rightarrow> None
      | c # ds \<Rightarrow>
          if c = 0x2B then (if isDigits 10 ds then Some (int (digitsValue 10 ds)) else None)
          else if c = 0x2D then (if isDigits 10 ds then Some (- int (digitsValue 10 ds)) else None)
          else if isDigits 10 t then Some (int (digitsValue 10 t)) else None)"

definition ExponentPart :: "jsstring \<Rightarrow> int option" where
  "ExponentPart t =
     (case t of
        [] \<Rightarrow> Some 0
      | c # ds \<Rightarrow> if c = 0x65 \<or> c = 0x45 then SignedInteger ds else None)"

text \<open>An unsigned decimal literal other than \<^verbatim>\<open>Infinity\<close>, as its digits and its power
  of ten: \<^verbatim>\<open>d+.d*\<close>, \<^verbatim>\<open>.d+\<close> or \<^verbatim>\<open>d+\<close>, each with an optional exponent.\<close>

definition StrUnsignedDecimalLiteral :: "jsstring \<Rightarrow> (nat \<times> int) option" where
  "StrUnsignedDecimalLiteral u =
     (let ip = takeWhile isDigit u; r = dropWhile isDigit u
      in case r of
           [] \<Rightarrow> if ip = [] then None else Some (digitsValue 10 ip, 0)
         | c # r' \<Rightarrow>
             if c = 0x2E then
               (let fp = takeWhile isDigit r'; x = dropWhile isDigit r'
                in if ip = [] \<and> fp = [] then None
                   else (case ExponentPart x of
                           None \<Rightarrow> None
                         | Some e \<Rightarrow> Some (digitsValue 10 (ip @ fp), e - int (length fp))))
             else if ip = [] then None
             else (case ExponentPart r of
                     None \<Rightarrow> None
                   | Some e \<Rightarrow> Some (digitsValue 10 ip, e)))"

definition StrDecimalLiteral :: "jsstring \<Rightarrow> number" where
  "StrDecimalLiteral t =
     (let neg = (t \<noteq> [] \<and> hd t = 0x2D);
          u = (if t \<noteq> [] \<and> (hd t = 0x2D \<or> hd t = 0x2B) then tl t else t)
      in if u = js ''Infinity'' then Infinity neg
         else (case StrUnsignedDecimalLiteral u of
                 None \<Rightarrow> NaN
               | Some (m, e) \<Rightarrow> number_of_decimal neg m e))"

definition StringToNumber :: "jsstring \<Rightarrow> number" where
  "StringToNumber s =
     (let t = trim s
      in if t = [] then Finite 0
         else (case radixPrefix t of
                 Some (base, ds) \<Rightarrow>
                   if isDigits base ds
                   then number_of_ratio False (digitsValue base ds * 2 ^ 1074) 1
                   else NaN
               | None \<Rightarrow> StrDecimalLiteral t))"

fun ToNumber :: "jsvalue \<Rightarrow> number" where
  "ToNumber Undefined = NaN"
| "ToNumber (Str s) = StringToNumber s"

section \<open>The program\<close>

subsection \<open>Counting\<close>

text \<open>
  A \<^verbatim>\<open>Map\<close> keeps its entries in the order of their first insertion; it is modelled by
  an association list with one entry per key. \<^verbatim>\<open>Map.prototype.set\<close> overwrites the
  entry of a key that is present and appends one for a new key.
\<close>

type_synonym ('k, 'v) Map = "('k \<times> 'v) list"

definition Map_has :: "('k, 'v) Map \<Rightarrow> 'k \<Rightarrow> bool" where
  "Map_has m k = (map_of m k \<noteq> None)"

definition Map_get :: "('k, 'v) Map \<Rightarrow> 'k \<Rightarrow> 'v option" where
  "Map_get m k = map_of m k"

definition Map_set :: "('k, 'v) Map \<Rightarrow> 'k \<Rightarrow> 'v \<Rightarrow> ('k, 'v) Map" where
  "Map_set m k v = AList.update k v m"

text \<open>
  \<^verbatim>\<open>
  function count<T>(values: T[]): Map<T, number> {
    const counts = new Map<T, number>();
    values.forEach(value => {
      const previous = counts.has(value) ? counts.get(value) : 0;
      counts.set(value, previous + 1);
    });
    return counts;
  }
  \<close>
  \<open>countStep\<close> is the function given to \<^verbatim>\<open>forEach\<close>, applied to the map so far and
  the next value.
\<close>

definition countStep :: "('a, nat) Map \<Rightarrow> 'a \<Rightarrow> ('a, nat) Map" where
  "countStep m v =
     (let previous = (if Map_has m v
                      then (case Map_get m v of Some n \<Rightarrow> n | None \<Rightarrow> 0)
                      else 0)
      in Map_set m v (previous + 1))"

definition count :: "'a list \<Rightarrow> ('a, nat) Map" where
  "count vs = foldl countStep [] vs"

subsection \<open>The emptiness predicate\<close>

text \<open>
  \<^verbatim>\<open>
  function isEmpty(value: string): boolean {
    return (value === undefined) || /^\s*$/.test(value);
  }
  \<close>
\<close>

definition isEmpty :: "jsvalue \<Rightarrow> bool" where
  "isEmpty v = (v = Undefined \<or> RegExp_test (Cat [Bol, Star Space, Eol]) (String v))"

subsection \<open>Comparators\<close>

text \<open>
  \<^verbatim>\<open>a.localeCompare(b)\<close> depends on the collation of the host's locale, which is the
  parameter \<open>lc\<close> of the model. Reading the property \<^verbatim>\<open>localeCompare\<close> of \<open>undefined\<close>
  raises a TypeError; the argument is converted to a string.
  \<^verbatim>\<open>
  function compareStrings(a: string, b: string): number { return a.localeCompare(b); }
  function compareNumbers(a: number, b: number): number { return a - b; }
  \<close>
\<close>

type_synonym collation = "jsstring \<Rightarrow> jsstring \<Rightarrow> number"

definition compareStrings :: "collation \<Rightarrow> jsvalue \<Rightarrow> jsvalue \<Rightarrow> error + number" where
  "compareStrings lc a b =
     (case a of Undefined \<Rightarrow> Inl TypeError | Str s \<Rightarrow> Inr (lc s (String b)))"

definition compareNumbers :: "jsvalue \<Rightarrow> jsvalue \<Rightarrow> error + number" where
  "compareNumbers a b = Inr (number_minus (ToNumber a) (ToNumber b))"

subsection \<open>The known types\<close>

record Type =
  id' :: string
  compareFunction :: "jsvalue \<Rightarrow> jsvalue \<Rightarrow> error + number"
  regExp :: RegExp
  test :: "jsvalue list \<Rightarrow> bool"

text \<open>The table of the source, in its order, with each entry's \<open>test\<close> added by the
  \<^verbatim>\<open>.map\<close> that follows it:
  \<^verbatim>\<open>values.every(value => regExp.test(String(value)))\<close>.\<close>

definition knownTypes :: "collation \<Rightarrow> Type list" where
  "knownTypes lc =
     map (\<lambda>(i, c, r).
            \<lparr>id' = i, compareFunction = c, regExp = r,
             test = (\<lambda>values. list_all (\<lambda>value. RegExp_test r (String value)) values)\<rparr>)
     [(''DATETIME'', compareStrings lc,
       Cat [Bol, OneOf (js ''12''), Repeat 3 (Some 3) Digit, Group 1 (Opt (Lit CHR ''-'')),
            OneOf (js ''01''), Digit, Backref 1, OneOf (js ''0123''), Digit, OneOf (js ''T ''),
            Opt (OneOf (js ''012'')), Digit, Lit CHR '':'', Range 0x30 0x35, Digit,
            Opt (Group 2 (Cat [Lit CHR '':'', Range 0x30 0x35, Digit])),
            Opt (Lit CHR ''Z''), Eol]),
      (''DATE'', compareStrings lc,
       Cat [Bol, OneOf (js ''12''), Repeat 3 (Some 3) Digit, Group 1 (Opt (Lit CHR ''-'')),
            OneOf (js ''01''), Digit, Backref 1, OneOf (js ''0123''), Digit, Eol]),
      (''INTEGER'', compareNumbers,
       Cat [Bol, Opt (Lit CHR ''-''), Repeat 1 (Some 10) Digit, Eol]),
      (''BIGINT'', compareNumbers,
       Cat [Bol, Opt (Lit CHR ''-''), Repeat 1 (Some 19) Digit, Eol]),
      (''REAL'', compareNumbers,
       Cat [Bol, Opt (Lit CHR ''-''),
            Group 1 (Alt [Plus Digit,
                          Cat [Lit CHR ''.'', Plus Digit],
                          Cat [Plus Digit, Lit CHR ''.'', Star Digit]]),
            Eol]),
      (''TIME'', compareStrings lc,
       Cat [Bol, Opt (OneOf (js ''012'')), Digit, Lit CHR '':'', Range 0x30 0x35, Digit, Eol])]"

definition defaultType :: "collation \<Rightarrow> Type" where
  "defaultType lc =
     \<lparr>id' = ''TEXT'', compareFunction = compareStrings lc,
      regExp = Cat [Bol, Star Dot, Eol], test = (\<lambda>values. True)\<rparr>"

text \<open>
  \<^verbatim>\<open>
  function inferType<T>(values: T[]): Type {
    if (values.length > 0) {
      for (let knownType of knownTypes) {
        if (knownType.test(values)) {
          return knownType;
        }
      }
    }
    return defaultType;
  }
  \<close>
  \<open>firstMatch\<close> is the \<^verbatim>\<open>for\<close> loop, which returns at the first type whose test holds.
\<close>

fun firstMatch :: "Type list \<Rightarrow> jsvalue list \<Rightarrow> Type option" where
  "firstMatch [] values = None"
| "firstMatch (knownType # rest) values =
     (if test knownType values then Some knownType else firstMatch rest values)"

definition inferType :: "collation \<Rightarrow> jsvalue list \<Rightarrow> Type" where
  "inferType lc values =
     (if length values > 0
      then (case firstMatch (knownTypes lc) values of
              Some knownType \<Rightarrow> knownType
            | None \<Rightarrow> defaultType lc)
      else defaultType lc)"

subsection \<open>Arrays\<close>

text \<open>
  Arrays are objects: \<^verbatim>\<open>filter\<close> makes a new one and \<^verbatim>\<open>sort\<close> reorders the one it is
  called on and returns it. The store is the list of the arrays allocated so far and a
  reference is an index into it.
\<close>

type_synonym ref = nat
type_synonym store = "jsvalue list list"

definition Array_filter :: "(jsvalue \<Rightarrow> bool) \<Rightarrow> store \<Rightarrow> ref \<Rightarrow> store \<times> ref" where
  "Array_filter p h a = (h @ [filter p (h ! a)], length h)"

text \<open>\<^verbatim>\<open>array[i]\<close> is \<open>undefined\<close> when \<open>i\<close> is not an index of the array.\<close>

definition Array_get :: "store \<Rightarrow> ref \<Rightarrow> int \<Rightarrow> jsvalue" where
  "Array_get h a i =
     (if 0 \<le> i \<and> i < int (length (h ! a)) then (h ! a) ! nat i else Undefined)"

text \<open>
  \<^verbatim>\<open>Array.prototype.sort(comparefn)\<close>. The abstract operation SortCompare puts
  \<open>undefined\<close> after every other value without calling the comparator, and reads a NaN
  from the comparator as \<open>+0\<close>. The order is that of a stable sort, as ECMAScript
  requires since 2019: an insertion sort that puts each element before the first one
  that it does not follow. An exception of the comparator ends the sort.
\<close>

definition SortCompare ::
  "(jsvalue \<Rightarrow> jsvalue \<Rightarrow> error + number) \<Rightarrow> jsvalue \<Rightarrow> jsvalue \<Rightarrow> error + number" where
  "SortCompare comparefn x y =
     (if x = Undefined \<and> y = Undefined then Inr (Finite 0)
      else if x = Undefined then Inr (number_of_int 1)
      else if y = Undefined then Inr (number_of_int (- 1))
      else (case comparefn x y of
              Inl e \<Rightarrow> Inl e
            | Inr v \<Rightarrow> Inr (if v = NaN then Finite 0 else v)))"

fun insertSorted ::
  "(jsvalue \<Rightarrow> jsvalue \<Rightarrow> error + number) \<Rightarrow> jsvalue \<Rightarrow> jsvalue list \<Rightarrow> error + jsvalue list" where
  "insertSorted comparefn x [] = Inr [x]"
| "insertSorted comparefn x (y # ys) =
     (case SortCompare comparefn x y of
        Inl e \<Rightarrow> Inl e
      | Inr v \<Rightarrow>
          if is_positive v
          then (case insertSorted comparefn x ys of
                  Inl e \<Rightarrow> Inl e
                | Inr zs \<Rightarrow> Inr (y # zs))
          else Inr (x # y # ys))"

fun sortValues ::
  "(jsvalue \<Rightarrow> jsvalue \<Rightarrow> error + number) \<Rightarrow> jsvalue list \<Rightarrow> error + jsvalue list" where
  "sortValues comparefn [] = Inr []"
| "sortValues comparefn (x # xs) =
     (case sortValues comparefn xs of
        Inl e \<Rightarrow> Inl e
      | Inr ys \<Rightarrow> insertSorted comparefn x ys)"

definition Array_sort ::
  "(jsvalue \<Rightarrow> jsvalue \<Rightarrow> error + number) \<Rightarrow> store \<Rightarrow> ref \<Rightarrow> error + store \<times> ref" where
  "Array_sort comparefn h a =
     (case sortValues comparefn (h ! a) of
        Inl e \<Rightarrow> Inl e
      | Inr xs \<Rightarrow> Inr (h[a := xs], a))"

subsection \<open>The synopsis of a column\<close>

record ColumnSynopsis =
  typeName :: string
  "values" :: ref
  nonEmptyValues :: ref
  minimum :: jsvalue
  maximum :: jsvalue
  counts :: "(jsvalue, nat) Map"

text \<open>
  \<^verbatim>\<open>
  export function synopsize<T>(values: T[]): ColumnSynopsis<T> {
    const nonEmptyValues = values.filter(value => !isEmpty(String(value)));
    const type = inferType(nonEmptyValues);
    const sortedNonEmptyValues = nonEmptyValues.sort(type.compareFunction);
    return {
      typeName: type.id,
      values,
      nonEmptyValues,
      minimum: sortedNonEmptyValues[0],
      maximum: sortedNonEmptyValues[sortedNonEmptyValues.length - 1],
      counts: count(nonEmptyValues),
    };
  }
  \<close>
  The result holds references, to be read in the store that comes with it. The
  parameter is written \<open>vals\<close> and the local array \<open>nonEmptyVals\<close>, since \<open>values\<close> and
  \<open>nonEmptyValues\<close> name the fields of the record; likewise the field \<^verbatim>\<open>id\<close> of a type
  is \<open>id'\<close>.
\<close>

definition synopsize :: "collation \<Rightarrow> store \<Rightarrow> ref \<Rightarrow> error + store \<times> ColumnSynopsis" where
  "synopsize lc h vals =
     (let (h1, nonEmptyVals) = Array_filter (\<lambda>value. \<not> isEmpty (Str (String value))) h vals;
          type = inferType lc (h1 ! nonEmptyVals)
      in case Array_sort (compareFunction type) h1 nonEmptyVals of
           Inl e \<Rightarrow> Inl e
         | Inr (h2, sortedNonEmptyValues) \<Rightarrow>
             Inr (h2,
                  \<lparr>typeName = id' type,
                   values = vals,
                   nonEmptyValues = nonEmptyVals,
                   minimum = Array_get h2 sortedNonEmptyValues 0,
                   maximum = Array_get h2 sortedNonEmptyValues
                               (int (length (h2 ! sortedNonEmptyValues)) - 1),
                   counts = count (h2 ! nonEmptyVals)\<rparr>))"

text \<open>A collation for concrete columns: the order of the code units.\<close>

fun compareCodeUnits :: collation where
  "compareCodeUnits [] [] = Finite 0"
| "compareCodeUnits [] (y # ys) = number_of_int (- 1)"
| "compareCodeUnits (x # xs) [] = number_of_int 1"
| "compareCodeUnits (x # xs) (y # ys) =
     (if x < y then number_of_int (- 1)
      else if y < x then number_of_int 1
      else compareCodeUnits xs ys)"

section \<open>Notions used in the statements\<close>

text \<open>The values that \<open>synopsize\<close> keeps: those on which its filter holds.\<close>

definition present :: "jsvalue list \<Rightarrow> jsvalue list" where
  "present vs = filter (\<lambda>v. \<not> isEmpty (Str (String v))) vs"

text \<open>A comparator is callable when it returns a number on every first argument that
  is not \<open>undefined\<close>; \<open>notAfter comparefn x y\<close> says that the sort may leave \<open>x\<close> before
  \<open>y\<close>: SortCompare returns a number that is not positive.\<close>

definition callable :: "(jsvalue \<Rightarrow> jsvalue \<Rightarrow> error + number) \<Rightarrow> bool" where
  "callable comparefn = (\<forall>x y. x \<noteq> Undefined \<longrightarrow> (\<exists>v. comparefn x y = Inr v))"

definition notAfter :: "(jsvalue \<Rightarrow> jsvalue \<Rightarrow> error + number) \<Rightarrow> jsvalue \<Rightarrow> jsvalue \<Rightarrow> bool" where
  "notAfter comparefn x y =
     (case SortCompare comparefn x y of Inl e \<Rightarrow> False | Inr v \<Rightarrow> \<not> is_positive v)"

text \<open>The order of the numbers other than NaN.\<close>

fun number_less :: "number \<Rightarrow> number \<Rightarrow> bool" where
  "number_less (Finite a) (Finite b) = (a < b)"
| "number_less (Finite a) (Infinity t) = (\<not> t)"
| "number_less (Infinity s) (Finite b) = s"
| "number_less (Infinity s) (Infinity t) = (s \<and> \<not> t)"
| "number_less NaN y = False"
| "number_less x NaN = False"

text \<open>The strings that a pattern can read, anchors and back-references left open.\<close>

definition lang_seq :: "jsstring set \<Rightarrow> jsstring set \<Rightarrow> jsstring set" where
  "lang_seq A B = {u @ v | u v. u \<in> A \<and> v \<in> B}"

primrec lang :: "RegExp \<Rightarrow> jsstring set" where
  "lang (Chr c) = {[c]}"
| "lang (OneOf cs) = {[x] | x. x \<in> set cs}"
| "lang (Range a b) = {[x] | x. a \<le> x \<and> x \<le> b}"
| "lang Digit = {[x] | x. isDigit x}"
| "lang Space = {[x] | x. isSpace x}"
| "lang Dot = {[x] | x. \<not> isLineTerminator x}"
| "lang Bol = {[]}"
| "lang Eol = {[]}"
| "lang (Cat rs) = foldr lang_seq (map lang rs) {[]}"
| "lang (Alt rs) = \<Union> (set (map lang rs))"
| "lang (Repeat lo hi r) =
     {concat us | us. lo \<le> length us
        \<and> (case hi of None \<Rightarrow> True | Some h \<Rightarrow> length us \<le> max lo h)
        \<and> set us \<subseteq> lang r}"
| "lang (Group n r) = lang r"
| "lang (Backref n) = UNIV"

definition reads :: "jsstring set \<Rightarrow> mstate \<Rightarrow> mstate \<Rightarrow> bool" where
  "reads L st st' =
     (\<exists>u\<in>L. fst (snd st) = u @ fst (snd st') \<and> fst st' = fst st + length u)"

text \<open>The parts of a decimal literal without exponent: sign, integer digits, point and
  fraction digits.\<close>

definition decimalParts :: "jsstring \<Rightarrow> jsstring \<Rightarrow> jsstring \<Rightarrow> jsstring \<Rightarrow> bool" where
  "decimalParts sg ip dot fp =
     (sg \<in> {[], [0x2D]} \<and> list_all isDigit ip \<and> list_all isDigit fp \<and> dot \<in> {[], [0x2E]}
      \<and> (dot = [] \<longrightarrow> fp = [] \<and> ip \<noteq> []) \<and> (ip = [] \<longrightarrow> fp \<noteq> []))"

text \<open>ECMAScript requires of \<^verbatim>\<open>localeCompare\<close> that it is a consistent comparator.\<close>

definition consistent_collation :: "collation \<Rightarrow> bool" where
  "consistent_collation lc =
     ((\<forall>a b. is_positive (lc a b) \<longleftrightarrow> is_negative (lc b a))
      \<and> (\<forall>a b c. \<not> is_positive (lc a b) \<longrightarrow> \<not> is_positive (lc b c) \<longrightarrow> \<not> is_positive (lc a c)))"

definition total_preorder_on :: "'a set \<Rightarrow> ('a \<Rightarrow> 'a \<Rightarrow> bool) \<Rightarrow> bool" where
  "total_preorder_on S R =
     ((\<forall>x\<in>S. \<forall>y\<in>S. R x y \<or> R y x)
      \<and> (\<forall>x\<in>S. \<forall>y\<in>S. \<forall>z\<in>S. R x y \<longrightarrow> R y z \<longrightarrow> R x z))"


section \<open>Properties of the parts\<close>

subsection \<open>Counting\<close>

lemma countStep_update:
  "countStep m k = AList.update k (Suc (case map_of m k of Some n \<Rightarrow> n | None \<Rightarrow> 0)) m"
  by (simp add: countStep_def Map_has_def Map_get_def Map_set_def split: option.splits)

lemma countStep_sum: "sum_list (map snd (countStep m k)) = Suc (sum_list (map snd m))"
  unfolding countStep_update by (induction m) (auto split: option.splits)

lemma countStep_distinct: "distinct (map fst m) \<Longrightarrow> distinct (map fst (countStep m k))"
  by (simp add: countStep_update distinct_update)

lemma countStep_map_of:
  "map_of (countStep m k) v =
     (if v = k then Some (Suc (case map_of m k of Some n \<Rightarrow> n | None \<Rightarrow> 0)) else map_of m v)"
  by (simp add: countStep_update update_conv')

lemma foldl_countStep_sum:
  "sum_list (map snd (foldl countStep m xs)) = sum_list (map snd m) + length xs"
  by (induction xs arbitrary: m) (simp_all add: countStep_sum)

lemma foldl_countStep_distinct:
  "distinct (map fst m) \<Longrightarrow> distinct (map fst (foldl countStep m xs))"
  by (induction xs arbitrary: m) (simp_all add: countStep_distinct)

lemma foldl_countStep_map_of:
  "map_of (foldl countStep m xs) v =
     (if v \<in> set xs \<or> map_of m v \<noteq> None
      then Some ((case map_of m v of Some n \<Rightarrow> n | None \<Rightarrow> 0) + count_list xs v)
      else None)"
proof (induction xs arbitrary: m)
  case Nil
  then show ?case by (auto split: option.splits)
next
  case (Cons x xs)
  show ?case
    by (auto simp add: Cons.IH countStep_map_of split: option.splits)
qed

lemma count_map_of:
  "map_of (count xs) v = (if v \<in> set xs then Some (count_list xs v) else None)"
  by (simp add: count_def foldl_countStep_map_of)

lemma count_sum: "sum_list (map snd (count xs)) = length xs"
  by (simp add: count_def foldl_countStep_sum)

lemma count_distinct: "distinct (map fst (count xs))"
  by (simp add: count_def foldl_countStep_distinct)

subsection \<open>The sort and the classifier\<close>

lemma callable_compareStrings: "callable (compareStrings lc)"
  by (auto simp: callable_def compareStrings_def split: jsvalue.splits)

lemma callable_compareNumbers: "callable compareNumbers"
  by (simp add: callable_def compareNumbers_def)

lemma SortCompare_total: "callable comparefn \<Longrightarrow> \<exists>v. SortCompare comparefn x y = Inr v"
proof (cases "x = Undefined \<or> y = Undefined")
  case True
  then show ?thesis by (auto simp: SortCompare_def)
next
  case False
  assume "callable comparefn"
  with False obtain v where "comparefn x y = Inr v"
    unfolding callable_def by blast
  with False show ?thesis by (simp add: SortCompare_def)
qed

lemma insertSorted_total:
  "callable comparefn \<Longrightarrow> \<exists>zs. insertSorted comparefn x ys = Inr zs \<and> mset zs = add_mset x (mset ys)"
proof (induction ys)
  case Nil
  then show ?case by simp
next
  case (Cons y ys)
  from Cons.prems obtain v where v: "SortCompare comparefn x y = Inr v"
    using SortCompare_total by blast
  from Cons obtain zs where zs: "insertSorted comparefn x ys = Inr zs" "mset zs = add_mset x (mset ys)"
    by blast
  show ?case using v zs by (cases "is_positive v") simp_all
qed

lemma sortValues_total:
  "callable comparefn \<Longrightarrow> \<exists>ys. sortValues comparefn xs = Inr ys \<and> mset ys = mset xs"
proof (induction xs)
  case Nil
  then show ?case by simp
next
  case (Cons x xs)
  then obtain ys where ys: "sortValues comparefn xs = Inr ys" "mset ys = mset xs" by blast
  from Cons.prems obtain zs where "insertSorted comparefn x ys = Inr zs" "mset zs = add_mset x (mset ys)"
    using insertSorted_total by blast
  with ys show ?case by simp
qed

lemma firstMatch_find: "firstMatch ts vs = find (\<lambda>t. test t vs) ts"
  by (induction ts) simp_all

lemma firstMatch_Some: "firstMatch ts vs = Some t \<Longrightarrow> t \<in> set ts \<and> test t vs"
  by (induction ts) (auto split: if_splits)

lemma knownTypes_ids:
  "map id' (knownTypes lc) = [''DATETIME'', ''DATE'', ''INTEGER'', ''BIGINT'', ''REAL'', ''TIME'']"
  by (simp add: knownTypes_def)

lemma knownTypes_test:
  "t \<in> set (knownTypes lc) \<Longrightarrow> test t vs = list_all (\<lambda>v. RegExp_test (regExp t) (String v)) vs"
  by (auto simp: knownTypes_def)

lemma knownTypes_compareFunction:
  "t \<in> set (knownTypes lc) \<Longrightarrow>
     (id' t \<in> {''DATETIME'', ''DATE'', ''TIME''} \<and> compareFunction t = compareStrings lc) \<or>
     (id' t \<in> {''INTEGER'', ''BIGINT'', ''REAL''} \<and> compareFunction t = compareNumbers)"
  by (auto simp: knownTypes_def)

lemma inferType_cases:
  "inferType lc vs = defaultType lc \<or>
   (vs \<noteq> [] \<and> inferType lc vs \<in> set (knownTypes lc) \<and> test (inferType lc vs) vs)"
  by (auto simp: inferType_def dest: firstMatch_Some split: option.splits)

lemma callable_inferType: "callable (compareFunction (inferType lc vs))"
  using inferType_cases [of lc vs] knownTypes_compareFunction [of "inferType lc vs" lc]
  by (auto simp: defaultType_def callable_compareStrings callable_compareNumbers)

lemma synopsize_unfold:
  assumes "a < length h"
  shows "synopsize lc h a =
    (case sortValues (compareFunction (inferType lc (present (h ! a)))) (present (h ! a)) of
       Inl e \<Rightarrow> Inl e
     | Inr xs \<Rightarrow>
         Inr (h @ [xs],
              \<lparr>typeName = id' (inferType lc (present (h ! a))),
               values = a,
               nonEmptyValues = length h,
               minimum = (if xs = [] then Undefined else hd xs),
               maximum = (if xs = [] then Undefined else last xs),
               counts = count xs\<rparr>))"
  by (simp add: synopsize_def Array_filter_def Array_sort_def Array_get_def present_def
      hd_conv_nth last_conv_nth nat_diff_distrib' of_nat_diff split: sum.splits)

lemma synopsize_result:
  assumes "a < length h"
  shows "\<exists>xs. sortValues (compareFunction (inferType lc (present (h ! a)))) (present (h ! a)) = Inr xs
     \<and> mset xs = mset (present (h ! a))
     \<and> synopsize lc h a =
         Inr (h @ [xs],
              \<lparr>typeName = id' (inferType lc (present (h ! a))),
               values = a,
               nonEmptyValues = length h,
               minimum = (if xs = [] then Undefined else hd xs),
               maximum = (if xs = [] then Undefined else last xs),
               counts = count xs\<rparr>)"
proof -
  obtain xs where xs: "sortValues (compareFunction (inferType lc (present (h ! a)))) (present (h ! a)) = Inr xs"
    "mset xs = mset (present (h ! a))"
    using sortValues_total [OF callable_inferType] by blast
  then show ?thesis using synopsize_unfold [OF assms, of lc] by simp
qed

lemma inferType_find:
  "vs \<noteq> [] \<Longrightarrow> inferType lc vs =
     (case find (\<lambda>t. list_all (\<lambda>v. RegExp_test (regExp t) (String v)) vs) (knownTypes lc) of
        Some t \<Rightarrow> t | None \<Rightarrow> defaultType lc)"
proof -
  have "find (\<lambda>t. test t vs) (knownTypes lc) =
        find (\<lambda>t. list_all (\<lambda>v. RegExp_test (regExp t) (String v)) vs) (knownTypes lc)"
    by (rule find_cong) (simp_all add: knownTypes_test)
  moreover assume "vs \<noteq> []"
  ultimately show ?thesis by (simp add: inferType_def firstMatch_find)
qed

lemma inferType_fallback:
  assumes "v \<in> set vs" and "\<forall>t\<in>set (knownTypes lc). \<not> RegExp_test (regExp t) (String v)"
  shows "inferType lc vs = defaultType lc"
proof -
  have "\<not> test t vs" if "t \<in> set (knownTypes lc)" for t
    using that assms by (auto simp: knownTypes_test list_all_iff)
  then have "firstMatch (knownTypes lc) vs = None"
    by (auto simp: firstMatch_find find_None_iff)
  then show ?thesis by (simp add: inferType_def)
qed

lemma inferType_nth:
  assumes "vs \<noteq> []" "i < length (knownTypes lc)" "test (knownTypes lc ! i) vs"
    and "\<forall>j<i. \<not> test (knownTypes lc ! j) vs"
  shows "inferType lc vs = knownTypes lc ! i"
proof -
  have "firstMatch ts vs = Some (ts ! i)"
    if "i < length ts" "test (ts ! i) vs" "\<forall>j<i. \<not> test (ts ! j) vs" for ts
    using that
  proof (induction ts arbitrary: i)
    case Nil
    then show ?case by simp
  next
    case (Cons t ts)
    show ?case
    proof (cases i)
      case 0
      with Cons.prems show ?thesis by simp
    next
      case (Suc k)
      with Cons.prems have "\<not> test t vs" by auto
      moreover have "firstMatch ts vs = Some (ts ! k)"
        using Cons.prems Suc by (intro Cons.IH) auto
      ultimately show ?thesis using Suc by simp
    qed
  qed
  with assms show ?thesis by (simp add: inferType_def)
qed

lemma mset_replicate_eq:
  assumes "mset xs = mset (replicate n x)"
  shows "xs = replicate n x"
proof -
  from assms have "set xs \<subseteq> {x}" by (metis mset_eq_setD set_replicate_conv_if empty_subsetI subset_refl)
  moreover from assms have "length xs = n" by (metis length_replicate mset_eq_length)
  ultimately show ?thesis by (metis replicate_eqI singletonD subsetD)
qed

lemma no_pattern_a: "\<forall>t\<in>set (knownTypes lc). \<not> RegExp_test (regExp t) (js ''a'')"
  by code_simp

lemma no_pattern_undefined: "\<forall>t\<in>set (knownTypes lc). \<not> RegExp_test (regExp t) (js ''undefined'')"
  by code_simp

lemma date_20160118:
  "\<not> RegExp_test (regExp (knownTypes lc ! 0)) (js ''20160118'')
   \<and> RegExp_test (regExp (knownTypes lc ! 1)) (js ''20160118'')
   \<and> RegExp_test (regExp (knownTypes lc ! 2)) (js ''20160118'')"
  by code_simp

lemma knownTypes_length: "length (knownTypes lc) = 6"
  by (simp add: knownTypes_def)

lemma knownTypes_nth_test:
  "i < 6 \<Longrightarrow> test (knownTypes lc ! i) vs = list_all (\<lambda>v. RegExp_test (regExp (knownTypes lc ! i)) (String v)) vs"
  by (rule knownTypes_test [of _ lc]) (simp add: knownTypes_length)

subsection \<open>Numbers\<close>

lemma roundTiesToEven_ge: "p div q \<le> roundTiesToEven p q"
  by (simp add: roundTiesToEven_def Let_def)

lemma roundTiesToEven_exact: "0 < q \<Longrightarrow> roundTiesToEven (n * q) q = n"
  by (simp add: roundTiesToEven_def Let_def)

lemma roundDouble_pos:
  assumes "0 < p"
  shows "0 < roundDouble p 1"
proof -
  define s where "s = floorlog 2 p - 53"
  have "2 ^ (floorlog 2 p - 1) \<le> p"
    using floorlog_bounds [of p 2] assms by simp
  moreover have "(2::nat) ^ s \<le> 2 ^ (floorlog 2 p - 1)"
    unfolding s_def by (rule power_increasing) simp_all
  ultimately have "2 ^ s \<le> p" by (rule order_trans [rotated])
  then have "1 \<le> p div 2 ^ s"
    by (simp add: less_eq_div_iff_mult_less_eq)
  then have "1 \<le> roundTiesToEven p (2 ^ s)"
    using roundTiesToEven_ge [of p "2 ^ s"] by simp
  then show ?thesis
    by (simp add: roundDouble_def s_def [symmetric])
qed

lemma roundDouble_zero: "roundDouble 0 q = 0"
  by (auto simp: roundDouble_def roundTiesToEven_def floorlog_def)

lemma roundDouble_exact:
  assumes "m < 2 ^ 53"
  shows "roundDouble (m * 2 ^ j) 1 = m * 2 ^ j"
proof (cases "m = 0")
  case True
  then show ?thesis by (simp add: roundDouble_zero)
next
  case False
  then have m: "0 < m" by simp
  have fl: "floorlog 2 m \<le> 53"
    using assms by (simp add: floorlog_le_iff)
  have flp: "floorlog 2 (m * 2 ^ j) = floorlog 2 m + j"
    using m by simp
  define s where "s = floorlog 2 m + j - 53"
  have sj: "s \<le> j" using fl by (simp add: s_def)
  have eq: "m * 2 ^ j = (m * 2 ^ (j - s)) * 2 ^ s"
    using sj by (simp add: power_add [symmetric])
  have "roundTiesToEven (m * 2 ^ j) (2 ^ s) = m * 2 ^ (j - s)"
    by (subst eq) (rule roundTiesToEven_exact, simp)
  then have "roundTiesToEven (m * 2 ^ j) (2 ^ s) * 2 ^ s = m * 2 ^ j"
    using sj by (simp add: power_add [symmetric])
  then show ?thesis
    by (simp add: roundDouble_def flp s_def [symmetric])
qed

lemma number_of_ratio_neq_NaN: "number_of_ratio neg p q \<noteq> NaN"
  by (simp add: number_of_ratio_def Let_def)

lemma number_of_decimal_neq_NaN: "number_of_decimal neg m e \<noteq> NaN"
  by (simp add: number_of_decimal_def number_of_ratio_neq_NaN)

lemma number_of_decimal_exact:
  assumes "m < 2 ^ 53"
  shows "number_of_decimal neg m 0 = number_of_int (if neg then - int m else int m)"
proof -
  have "m * 2 ^ 1074 < 2 ^ 53 * (2::nat) ^ 1074"
    using assms by simp
  also have "\<dots> \<le> 2 ^ 2098" by (simp add: power_add [symmetric])
  finally have "\<not> 2 ^ 2098 \<le> m * 2 ^ 1074" by simp
  then show ?thesis
    using roundDouble_exact [OF assms, of 1074]
    by (simp add: number_of_decimal_def number_of_ratio_def number_of_int_def)
qed

lemma is_positive_number_of_ratio:
  "is_positive (number_of_ratio neg p (Suc 0)) \<longleftrightarrow> \<not> neg \<and> 0 < p"
  using roundDouble_pos [of p] roundDouble_zero [of 1]
  by (cases "p = 0") (auto simp: number_of_ratio_def Let_def)

lemma is_negative_number_of_ratio:
  "is_negative (number_of_ratio neg p (Suc 0)) \<longleftrightarrow> neg \<and> 0 < p"
  using roundDouble_pos [of p] roundDouble_zero [of 1]
  by (cases "p = 0") (auto simp: number_of_ratio_def Let_def)

lemma is_positive_minus:
  "x \<noteq> NaN \<Longrightarrow> y \<noteq> NaN \<Longrightarrow> is_positive (number_minus x y) \<longleftrightarrow> number_less y x"
  by (cases x; cases y) (auto simp: is_positive_number_of_ratio)

lemma is_negative_minus:
  "x \<noteq> NaN \<Longrightarrow> y \<noteq> NaN \<Longrightarrow> is_negative (number_minus x y) \<longleftrightarrow> number_less x y"
  by (cases x; cases y) (auto simp: is_negative_number_of_ratio)

lemma number_less_of_int [simp]:
  "number_less (number_of_int a) (number_of_int b) \<longleftrightarrow> a < b"
  by (simp add: number_of_int_def)

subsection \<open>Rounding is monotone\<close>







subsection \<open>Regular expressions\<close>

lemma reads_Nil: "[] \<in> L \<Longrightarrow> reads L st st"
  by (auto simp: reads_def)

lemma reads_seq: "reads A st st1 \<Longrightarrow> reads B st1 st2 \<Longrightarrow> reads (lang_seq A B) st st2"
  unfolding reads_def lang_seq_def by fastforce

lemma step_char_reads:
  "st' \<in> set (step_char P st) \<Longrightarrow> reads {[x] | x. P x} st st'"
  by (cases st) (auto simp: step_char_def reads_def split: list.splits if_splits)

lemma foldl_run_reads:
  assumes "\<And>r st st'. r \<in> set rs \<Longrightarrow> st' \<in> set (run r st) \<Longrightarrow> reads (lang r) st st'"
    and "st' \<in> set (foldl (\<lambda>sts r. concat (map (run r) sts)) sts rs)"
  shows "\<exists>st\<in>set sts. reads (lang (Cat rs)) st st'"
  using assms
proof (induction rs arbitrary: sts)
  case Nil
  then show ?case by (auto intro: reads_Nil)
next
  case (Cons r rs)
  from Cons.prems(2)
  have "st' \<in> set (foldl (\<lambda>sts r. concat (map (run r) sts)) (concat (map (run r) sts)) rs)"
    by simp
  with Cons.IH [of "concat (map (run r) sts)"] Cons.prems(1)
  obtain st1 where st1: "st1 \<in> set (concat (map (run r) sts))" "reads (lang (Cat rs)) st1 st'"
    by auto
  from st1(1) obtain st where st: "st \<in> set sts" "st1 \<in> set (run r st)" by auto
  have "reads (lang r) st st1"
    by (rule Cons.prems(1)) (simp_all add: st(2))
  with st1(2) have "reads (lang (Cat (r # rs))) st st'"
    using reads_seq by fastforce
  with st(1) show ?case by blast
qed

lemma repeat_run_reads:
  assumes "\<And>st st'. st' \<in> set (f st) \<Longrightarrow> reads L st st'"
    and "st' \<in> set (repeat_run f lo k st)"
  shows "\<exists>us. lo \<le> length us \<and> length us \<le> lo + k \<and> set us \<subseteq> L
           \<and> fst (snd st) = concat us @ fst (snd st') \<and> fst st' = fst st + length (concat us)"
  using assms
proof (induction f lo k st rule: repeat_run.induct)
  case (1 f st)
  then show ?case by (auto intro: exI [of _ "[]"])
next
  case (2 f k st)
  show ?case
  proof (cases "st' = st")
    case True
    then show ?thesis by (auto intro: exI [of _ "[]"])
  next
    case False
    with "2.prems"(2) obtain st1 where st1: "st1 \<in> set (f st)" "st' \<in> set (repeat_run f 0 k st1)"
      by auto
    from "2.IH" [OF st1(1) "2.prems"(1) st1(2)] obtain us where us: "length us \<le> k" "set us \<subseteq> L"
      "fst (snd st1) = concat us @ fst (snd st')" "fst st' = fst st1 + length (concat us)"
      by auto
    from "2.prems"(1) [OF st1(1)] obtain u where u: "u \<in> L" "fst (snd st) = u @ fst (snd st1)"
      "fst st1 = fst st + length u"
      by (auto simp: reads_def)
    from us u show ?thesis
      by (intro exI [of _ "u # us"]) auto
  qed
next
  case (3 f n k st)
  from "3.prems"(2) obtain st1 where st1: "st1 \<in> set (f st)" "st' \<in> set (repeat_run f n k st1)"
    by auto
  from "3.IH" [OF st1(1) "3.prems"(1) st1(2)] obtain us where us: "n \<le> length us" "length us \<le> n + k" "set us \<subseteq> L"
    "fst (snd st1) = concat us @ fst (snd st')" "fst st' = fst st1 + length (concat us)"
    by auto
  from "3.prems"(1) [OF st1(1)] obtain u where u: "u \<in> L" "fst (snd st) = u @ fst (snd st1)"
    "fst st1 = fst st + length u"
    by (auto simp: reads_def)
  from us u show ?case
    by (intro exI [of _ "u # us"]) auto
qed

lemma run_reads: "st' \<in> set (run r st) \<Longrightarrow> reads (lang r) st st'"
proof (induction r arbitrary: st st')
  case (Cat rs)
  from foldl_run_reads [of rs st' "[st]"] Cat show ?case by auto
next
  case (Alt rs)
  then obtain r where "r \<in> set rs" "st' \<in> set (run r st)" by auto
  with Alt.IH have "reads (lang r) st st'" by blast
  with \<open>r \<in> set rs\<close> show ?case by (auto simp: reads_def)
next
  case (Repeat lo hi r)
  define k where "k = (case hi of None \<Rightarrow> length (fst (snd st)) | Some h \<Rightarrow> h - lo)"
  from Repeat.prems have "st' \<in> set (repeat_run (run r) lo k st)"
    by (simp add: k_def)
  from repeat_run_reads [of "run r" "lang r", OF Repeat.IH this]
  obtain us where us: "lo \<le> length us" "length us \<le> lo + k" "set us \<subseteq> lang r"
    "fst (snd st) = concat us @ fst (snd st')" "fst st' = fst st + length (concat us)"
    by blast
  have "case hi of None \<Rightarrow> True | Some h \<Rightarrow> length us \<le> max lo h"
    using us(2) by (auto simp: k_def split: option.splits)
  with us show ?case
    unfolding reads_def by (intro bexI [of _ "concat us"]) auto
next
  case (Group n r)
  obtain i s cs where st: "st = (i, s, cs)" by (cases st)
  from Group.prems obtain st1 where "st1 \<in> set (run r st)"
    "fst st' = fst st1" "fst (snd st') = fst (snd st1)"
    by (auto simp: st)
  with Group.IH [of st1 st] show ?case by (simp add: reads_def)
next
  case (Backref n)
  obtain i s cs where st: "st = (i, s, cs)" by (cases st)
  show ?case
  proof (cases "map_of cs n")
    case None
    with Backref show ?thesis by (auto simp: st reads_def)
  next
    case (Some u)
    with Backref have "st' = (i + length u, drop (length u) s, cs)" "take (length u) s = u"
      by (auto simp: st split: if_splits)
    then show ?thesis
      unfolding reads_def st
      by (intro bexI [of _ u]) (auto, metis append_take_drop_id)
  qed
qed (auto dest: step_char_reads simp: reads_Nil split: if_splits)

text \<open>A pattern between \<^verbatim>\<open>^\<close> and \<^verbatim>\<open>$\<close> reads the whole string.\<close>

lemma foldl_run_Nil: "foldl (\<lambda>sts r. concat (map (run r) sts)) [] rs = []"
  by (induction rs) simp_all

lemma RegExp_test_anchored:
  assumes "RegExp_test (Cat (Bol # rs @ [Eol])) s"
  shows "s \<in> lang (Cat rs)"
proof -
  let ?step = "\<lambda>sts r. concat (map (run r) sts)"
  from assms obtain i st' where i: "i \<le> length s"
    and st': "st' \<in> set (run (Cat (Bol # rs @ [Eol])) (i, drop i s, []))"
    unfolding RegExp_test_def list_ex_iff
    by (metis atLeastLessThan_iff last_in_set less_Suc_eq_le set_upt)
  have i0: "i = 0"
    using st' by (cases "i = 0") (simp_all add: foldl_run_Nil)
  from st' i0 have "st' \<in> set (concat (map (run Eol) (foldl ?step [(0, s, [])] rs)))"
    by simp
  then obtain st1 where st1: "st1 \<in> set (run (Cat rs) (0, s, []))" "st' \<in> set (run Eol st1)"
    by auto
  from st1(2) have "fst (snd st1) = []" by (simp split: if_splits)
  with run_reads [OF st1(1)] show ?thesis by (auto simp: reads_def)
qed

subsection \<open>Decimal literals\<close>

lemma isDigit_facts:
  assumes "isDigit x"
  shows "\<not> isSpace x" "x \<noteq> 0x2D" "x \<noteq> 0x2B" "x \<noteq> 0x2E" "x \<noteq> 0x49"
    "x \<noteq> 0x62" "x \<noteq> 0x42" "x \<noteq> 0x6F" "x \<noteq> 0x4F" "x \<noteq> 0x78" "x \<noteq> 0x58"
  using assms
  by (auto simp: isDigit_def isSpace_def isWhiteSpace_def isLineTerminator_def word_le_nat_alt)

lemma not_isDigit_dot [simp]: "\<not> isDigit 0x2E" "\<not> isDigit 0x2D"
  by (simp_all add: isDigit_def)

lemma not_isSpace_dot [simp]: "\<not> isSpace 0x2E" "\<not> isSpace 0x2D"
  by (simp_all add: isSpace_def isWhiteSpace_def isLineTerminator_def)

lemma trim_id:
  assumes "s \<noteq> []" "\<not> isSpace (hd s)" "\<not> isSpace (last s)"
  shows "trim s = s"
proof -
  have "dropWhile isSpace s = s"
    using assms(2) by (simp add: dropWhile_eq_self_iff)
  moreover have "dropWhile isSpace (rev s) = rev s"
    using assms(1,3) by (simp add: dropWhile_eq_self_iff hd_rev)
  ultimately show ?thesis by (simp add: trim_def)
qed

lemma concat_singletons:
  "set us \<subseteq> {[x] | x. P x} \<Longrightarrow> list_all P (concat us) \<and> length (concat us) = length us"
  by (induction us) auto

lemma isDigits_digits: "ds \<noteq> [] \<Longrightarrow> list_all isDigit ds \<Longrightarrow> isDigits 10 ds"
  by (auto simp: isDigits_def isDigit_def digitValue_def list_all_iff word_le_nat_alt)

lemma StrUnsignedDecimalLiteral_decimal:
  assumes "list_all isDigit ip" "list_all isDigit fp" "dot \<in> {[], [0x2E]}"
    "dot = [] \<longrightarrow> fp = [] \<and> ip \<noteq> []" "ip = [] \<longrightarrow> fp \<noteq> []"
  shows "StrUnsignedDecimalLiteral (ip @ dot @ fp) =
           Some (digitsValue 10 (ip @ fp), - int (length fp))"
proof (cases "dot = []")
  case True
  have tw: "takeWhile isDigit ip = ip" "dropWhile isDigit ip = []"
    using assms(1) by (simp_all add: list_all_iff)
  from True assms(4) show ?thesis
    by (simp add: StrUnsignedDecimalLiteral_def tw)
next
  case False
  with assms have dot: "dot = [0x2E]" by simp
  have tw: "takeWhile isDigit (ip @ 0x2E # fp) = ip" "dropWhile isDigit (ip @ 0x2E # fp) = 0x2E # fp"
    using assms(1) by (simp_all add: list_all_iff)
  have tf: "takeWhile isDigit fp = fp" "dropWhile isDigit fp = []"
    using assms(2) by (simp_all add: list_all_iff)
  show ?thesis
    using assms(5) by (simp add: StrUnsignedDecimalLiteral_def dot tw tf ExponentPart_def)
qed

lemma StringToNumber_decimal:
  assumes "sg \<in> {[], [0x2D]}" "list_all isDigit ip" "list_all isDigit fp" "dot \<in> {[], [0x2E]}"
    "dot = [] \<longrightarrow> fp = [] \<and> ip \<noteq> []" "ip = [] \<longrightarrow> fp \<noteq> []"
  shows "StringToNumber (sg @ ip @ dot @ fp) =
           number_of_decimal (sg \<noteq> []) (digitsValue 10 (ip @ fp)) (- int (length fp))"
proof -
  define c where "c = ip @ dot @ fp"
  have c_ne: "c \<noteq> []" using assms(5,6) by (auto simp: c_def)
  have hd_c: "isDigit (hd c) \<or> hd c = 0x2E"
    using assms(2-6) by (cases ip; cases dot; cases fp) (auto simp: c_def)
  have last_c: "isDigit (last c) \<or> last c = 0x2E"
    using assms(2-6) by (cases fp rule: rev_cases; cases dot; cases ip rule: rev_cases) (auto simp: c_def)
  have not_space: "\<not> isSpace (hd c)" "\<not> isSpace (last c)"
    using hd_c last_c isDigit_facts(1) by auto
  have hd_not: "hd c \<noteq> 0x2D" "hd c \<noteq> 0x2B" "hd c \<noteq> 0x49"
    using hd_c isDigit_facts by auto
  have c_inf: "c \<noteq> js ''Infinity''"
    using hd_not(3) by (auto simp: js_def)
  have second: "tl c = [] \<or> isDigit (hd (tl c)) \<or> hd (tl c) = 0x2E"
    using assms(2-6) by (cases ip; cases dot; cases fp; cases "tl ip"; cases "tl fp") (auto simp: c_def)
  have radix_c: "radixPrefix c = None"
    using c_ne second
    by (cases c; cases "tl c") (auto simp: radixPrefix_def isDigit_def)
  have dec_c: "StrDecimalLiteral c =
      number_of_decimal False (digitsValue 10 (ip @ fp)) (- int (length fp))"
    using c_ne hd_not c_inf StrUnsignedDecimalLiteral_decimal [OF assms(2-6)]
    by (simp add: StrDecimalLiteral_def c_def [symmetric])
  show ?thesis
  proof (cases "sg = []")
    case True
    have "trim c = c" using c_ne not_space by (rule trim_id)
    with True c_ne radix_c dec_c show ?thesis
      by (simp add: StringToNumber_def c_def [symmetric])
  next
    case False
    with assms(1) have sg: "sg = [0x2D]" by simp
    have "trim (0x2D # c) = 0x2D # c"
      using c_ne not_space by (intro trim_id) simp_all
    moreover have "radixPrefix (0x2D # c) = None"
      by (simp add: radixPrefix_def split: list.splits)
    moreover have "StrDecimalLiteral (0x2D # c) =
      number_of_decimal True (digitsValue 10 (ip @ fp)) (- int (length fp))"
      using c_inf StrUnsignedDecimalLiteral_decimal [OF assms(2-6)]
      by (simp add: StrDecimalLiteral_def c_def [symmetric])
    ultimately show ?thesis
      by (simp add: StringToNumber_def sg c_def [symmetric])
  qed
qed

subsection \<open>The numeric patterns\<close>

lemma lang_seq_iff: "w \<in> lang_seq A B \<longleftrightarrow> (\<exists>u v. w = u @ v \<and> u \<in> A \<and> v \<in> B)"
  by (auto simp: lang_seq_def)

lemma lang_seq_Nil: "lang_seq A {[]} = A"
  by (auto simp: lang_seq_def)

lemma lang_Cat_Cons: "lang (Cat (r # rs)) = lang_seq (lang r) (lang (Cat rs))"
  by simp

lemma lang_Cat_Nil: "lang (Cat []) = {[]}"
  by simp

lemma lang_Alt_Cons: "lang (Alt (r # rs)) = lang r \<union> lang (Alt rs)"
  by simp

lemma lang_Alt_Nil: "lang (Alt []) = {}"
  by simp

lemma lang_Group: "lang (Group n r) = lang r"
  by simp

lemma lang_Chr: "lang (Chr c) = {[c]}"
  by simp

lemmas lang_structure =
  lang_Cat_Cons lang_Cat_Nil lang_Alt_Cons lang_Alt_Nil lang_Group lang_Chr lang_seq_Nil

lemma lang_Cat_Group_Alt3:
  "lang (Cat [a, Group n (Alt [b, c, d])]) = lang_seq (lang a) (lang b \<union> (lang c \<union> lang d))"
  by (simp add: lang_seq_Nil)

lemma lang_Opt_Chr: "u \<in> lang (Opt (Chr c)) \<Longrightarrow> u = [] \<or> u = [c]"
proof -
  assume "u \<in> lang (Opt (Chr c))"
  then obtain us where us: "u = concat us" "length us \<le> 1" "set us \<subseteq> {[c]}" by auto
  then show ?thesis by (cases us) auto
qed

lemma lang_Repeat_Digit:
  assumes "u \<in> lang (Repeat lo hi Digit)"
  shows "list_all isDigit u \<and> lo \<le> length u
           \<and> (case hi of None \<Rightarrow> True | Some h \<Rightarrow> length u \<le> max lo h)"
proof -
  from assms obtain us where us: "u = concat us" "lo \<le> length us"
    "case hi of None \<Rightarrow> True | Some h \<Rightarrow> length us \<le> max lo h" "set us \<subseteq> {[x] | x. isDigit x}"
    by auto
  from concat_singletons [OF us(4)] us(1-3) show ?thesis
    by (auto split: option.splits)
qed

lemma lang_integer:
  assumes "s \<in> lang (Cat [Opt (Lit CHR ''-''), Repeat 1 (Some n) Digit])"
  shows "\<exists>sg ip. s = sg @ ip \<and> decimalParts sg ip [] [] \<and> length ip \<le> max 1 n"
proof -
  from assms have "s \<in> lang_seq (lang (Opt (Chr 0x2D))) (lang (Repeat 1 (Some n) Digit))"
    by (simp del: lang.simps add: lang_structure)
  then obtain u v where s: "s = u @ v" and u: "u \<in> lang (Opt (Chr 0x2D))"
    and v: "v \<in> lang (Repeat 1 (Some n) Digit)"
    unfolding lang_seq_iff by blast
  from lang_Repeat_Digit [OF v] have "list_all isDigit v" "v \<noteq> []" "length v \<le> max 1 n"
    by auto
  with lang_Opt_Chr [OF u] s show ?thesis
    by (intro exI [of _ u] exI [of _ v]) (auto simp: decimalParts_def)
qed

lemma lang_real:
  assumes "s \<in> lang (Cat [Opt (Lit CHR ''-''),
             Group 1 (Alt [Plus Digit, Cat [Lit CHR ''.'', Plus Digit],
                           Cat [Plus Digit, Lit CHR ''.'', Star Digit]])])"
  shows "\<exists>sg ip dot fp. s = sg @ ip @ dot @ fp \<and> decimalParts sg ip dot fp"
proof -
  from assms have "s \<in> lang_seq (lang (Opt (Chr 0x2D)))
      (lang (Plus Digit) \<union> (lang (Cat [Chr 0x2E, Plus Digit])
         \<union> lang (Cat [Plus Digit, Chr 0x2E, Star Digit])))"
    by (simp del: lang.simps add: lang_Cat_Group_Alt3)
  then obtain u v where s: "s = u @ v" and u: "u \<in> lang (Opt (Chr 0x2D))"
    and v: "v \<in> lang (Plus Digit) \<or> v \<in> lang (Cat [Chr 0x2E, Plus Digit])
            \<or> v \<in> lang (Cat [Plus Digit, Chr 0x2E, Star Digit])"
    unfolding lang_seq_iff by blast
  from lang_Opt_Chr [OF u] have sg: "u \<in> {[], [0x2D]}" by simp
  from v consider (a) "v \<in> lang (Plus Digit)"
    | (b) "v \<in> lang (Cat [Chr 0x2E, Plus Digit])"
    | (c) "v \<in> lang (Cat [Plus Digit, Chr 0x2E, Star Digit])"
    by blast
  then show ?thesis
  proof cases
    case a
    from lang_Repeat_Digit [OF a] have "list_all isDigit v" "v \<noteq> []" by auto
    with sg s show ?thesis
      by (intro exI [of _ u] exI [of _ v] exI [of _ "[]"]) (auto simp: decimalParts_def)
  next
    case b
    then have "v \<in> lang_seq {[0x2E]} (lang (Plus Digit))"
      by (simp del: lang.simps add: lang_structure)
    then obtain fp where fp: "v = 0x2E # fp" "fp \<in> lang (Plus Digit)"
      unfolding lang_seq_iff by auto
    from lang_Repeat_Digit [OF fp(2)] have "list_all isDigit fp" "fp \<noteq> []" by auto
    with sg s fp(1) show ?thesis
      by (intro exI [of _ u] exI [of _ "[]"] exI [of _ "[0x2E]"] exI [of _ fp])
        (auto simp: decimalParts_def)
  next
    case c
    then have "v \<in> lang_seq (lang (Plus Digit)) (lang_seq {[0x2E]} (lang (Star Digit)))"
      by (simp del: lang.simps add: lang_structure)
    then obtain ip fp where p: "v = ip @ 0x2E # fp" "ip \<in> lang (Plus Digit)" "fp \<in> lang (Star Digit)"
      unfolding lang_seq_iff by auto
    from lang_Repeat_Digit [OF p(2)] have "list_all isDigit ip" "ip \<noteq> []" by auto
    moreover from lang_Repeat_Digit [OF p(3)] have "list_all isDigit fp" by auto
    ultimately show ?thesis using sg s p(1)
      by (intro exI [of _ u] exI [of _ ip] exI [of _ "[0x2E]"] exI [of _ fp])
        (auto simp: decimalParts_def)
  qed
qed

lemma numeric_test_decimal:
  assumes "t \<in> set (knownTypes lc)" "id' t \<in> {''INTEGER'', ''BIGINT'', ''REAL''}"
    and "RegExp_test (regExp t) s"
  shows "\<exists>sg ip dot fp. s = sg @ ip @ dot @ fp \<and> decimalParts sg ip dot fp
           \<and> (id' t = ''INTEGER'' \<longrightarrow> dot = [] \<and> fp = [] \<and> length ip \<le> 10)"
proof -
  from assms(1,2) consider
    (int) "id' t = ''INTEGER''" "regExp t = Cat (Bol # [Opt (Lit CHR ''-''), Repeat 1 (Some 10) Digit] @ [Eol])"
  | (big) "id' t = ''BIGINT''" "regExp t = Cat (Bol # [Opt (Lit CHR ''-''), Repeat 1 (Some 19) Digit] @ [Eol])"
  | (real) "id' t = ''REAL''" "regExp t = Cat (Bol # [Opt (Lit CHR ''-''),
             Group 1 (Alt [Plus Digit, Cat [Lit CHR ''.'', Plus Digit],
                           Cat [Plus Digit, Lit CHR ''.'', Star Digit]])] @ [Eol])"
    by (auto simp: knownTypes_def)
  then show ?thesis
  proof cases
    case int
    from assms(3) have "s \<in> lang (Cat [Opt (Lit CHR ''-''), Repeat 1 (Some 10) Digit])"
      unfolding int(2) by (rule RegExp_test_anchored)
    from lang_integer [OF this] show ?thesis by fastforce
  next
    case big
    from assms(3) have "s \<in> lang (Cat [Opt (Lit CHR ''-''), Repeat 1 (Some 19) Digit])"
      unfolding big(2) by (rule RegExp_test_anchored)
    from lang_integer [OF this] big(1) show ?thesis by fastforce
  next
    case real
    from assms(3) have "s \<in> lang (Cat [Opt (Lit CHR ''-''),
             Group 1 (Alt [Plus Digit, Cat [Lit CHR ''.'', Plus Digit],
                           Cat [Plus Digit, Lit CHR ''.'', Star Digit]])])"
      unfolding real(2) by (rule RegExp_test_anchored)
    from lang_real [OF this] real(1) show ?thesis by fastforce
  qed
qed

lemma foldl_digits_bound:
  "list_all isDigit ds \<Longrightarrow>
     foldl (\<lambda>n c. 10 * n + digitValue c) a ds < (a + 1) * 10 ^ length ds"
proof (induction ds arbitrary: a)
  case Nil
  then show ?case by simp
next
  case (Cons d ds)
  then have "digitValue d \<le> 9"
    by (auto simp: isDigit_def digitValue_def word_le_nat_alt)
  then have "(10 * a + digitValue d + 1) * 10 ^ length ds \<le> (a + 1) * 10 ^ length (d # ds)"
    by (simp add: algebra_simps)
  moreover from Cons have "foldl (\<lambda>n c. 10 * n + digitValue c) (10 * a + digitValue d) ds
      < (10 * a + digitValue d + 1) * 10 ^ length ds"
    by simp
  ultimately show ?case by simp
qed

lemma digitsValue_bound: "list_all isDigit ds \<Longrightarrow> digitsValue 10 ds < 10 ^ length ds"
  using foldl_digits_bound [of ds 0] by (simp add: digitsValue_def)

subsection \<open>The emptiness predicate\<close>

lemma repeat_run_all:
  "list_all P s \<Longrightarrow> length s \<le> k \<Longrightarrow>
     (i + length s, [], cs) \<in> set (repeat_run (step_char P) 0 k (i, s, cs))"
proof (induction s arbitrary: i k)
  case Nil
  then show ?case by (cases k) simp_all
next
  case (Cons x xs)
  then obtain k' where k: "k = Suc k'" by (cases k) auto
  from Cons.prems have "step_char P (i, x # xs, cs) = [(Suc i, xs, cs)]"
    by (simp add: step_char_def)
  moreover from Cons.IH [of k' "Suc i"] Cons.prems k
  have "(Suc i + length xs, [], cs) \<in> set (repeat_run (step_char P) 0 k' (Suc i, xs, cs))"
    by simp
  ultimately show ?case by (simp add: k)
qed

lemma isEmpty_iff: "isEmpty (Str s) \<longleftrightarrow> list_all isSpace s"
proof
  assume "isEmpty (Str s)"
  then have "RegExp_test (Cat (Bol # [Star Space] @ [Eol])) s"
    by (simp add: isEmpty_def)
  then have "s \<in> lang (Cat [Star Space])" by (rule RegExp_test_anchored)
  then obtain us where "s = concat us" "set us \<subseteq> {[x] | x. isSpace x}"
    by (auto simp: lang_seq_Nil)
  with concat_singletons [of us isSpace] show "list_all isSpace s" by simp
next
  assume "list_all isSpace s"
  have f: "run Space = step_char isSpace" by (rule ext) simp
  from repeat_run_all [OF \<open>list_all isSpace s\<close>, of "length s" 0 "[]"]
  have mem: "(length s, [], []) \<in> set (repeat_run (run Space) 0 (length s) (0, s, []))"
    by (simp add: f)
  have eq: "run (Cat [Bol, Star Space, Eol]) (0, s, []) =
      concat (map (run Eol) (repeat_run (run Space) 0 (length s) (0, s, [])))"
    by simp
  have "(length s, [], []) \<in> set (run Eol (length s, [], []))" by simp
  with mem have "(length s, [], []) \<in> set (run (Cat [Bol, Star Space, Eol]) (0, s, []))"
    unfolding eq set_concat set_map by blast
  then have "run (Cat [Bol, Star Space, Eol]) (0, drop 0 s, []) \<noteq> []"
    by (auto simp del: run.simps)
  then show "isEmpty (Str s)"
    unfolding isEmpty_def RegExp_test_def list_ex_iff String.simps
    by (intro disjI2 bexI [of _ 0]) simp_all
qed

lemma present_iff:
  "present vs = filter (\<lambda>v. \<not> list_all isSpace (String v)) vs"
  by (simp add: present_def isEmpty_iff)

subsection \<open>The order of the sort\<close>

lemma is_negative_not_positive: "is_negative v \<Longrightarrow> \<not> is_positive v"
  by (cases v) auto

lemma is_positive_of_int [simp]: "is_positive (number_of_int n) \<longleftrightarrow> 0 < n"
  by (simp add: number_of_int_def zero_less_mult_iff)

lemma is_negative_of_int [simp]: "is_negative (number_of_int n) \<longleftrightarrow> n < 0"
  by (simp add: number_of_int_def mult_less_0_iff)

lemma is_positive_NaN_zero [simp]: "is_positive (if v = NaN then Finite 0 else v) = is_positive v"
  by (cases v) auto

lemma notAfter_Undefined:
  "notAfter comparefn x Undefined" "y \<noteq> Undefined \<Longrightarrow> \<not> notAfter comparefn Undefined y"
  by (auto simp: notAfter_def SortCompare_def)

lemma notAfter_compareStrings:
  "notAfter (compareStrings lc) (Str a) (Str b) \<longleftrightarrow> \<not> is_positive (lc a b)"
  by (simp add: notAfter_def SortCompare_def compareStrings_def)

lemma notAfter_compareNumbers:
  "notAfter compareNumbers (Str a) (Str b) \<longleftrightarrow>
     \<not> is_positive (number_minus (StringToNumber a) (StringToNumber b))"
  by (simp add: notAfter_def SortCompare_def compareNumbers_def)

lemma number_less_trans:
  "x \<noteq> NaN \<Longrightarrow> y \<noteq> NaN \<Longrightarrow> z \<noteq> NaN \<Longrightarrow>
     \<not> number_less y x \<Longrightarrow> \<not> number_less z y \<Longrightarrow> \<not> number_less z x"
  by (cases x; cases y; cases z) auto

lemma number_less_asym: "number_less x y \<Longrightarrow> \<not> number_less y x"
  by (cases x; cases y) auto

lemma insertSorted_sorted:
  assumes c: "callable comparefn"
    and ord: "total_preorder_on S (notAfter comparefn)"
    and "x \<in> S" "set ys \<subseteq> S" "sorted_wrt (notAfter comparefn) ys"
  shows "\<exists>zs. insertSorted comparefn x ys = Inr zs \<and> set zs = insert x (set ys)
           \<and> sorted_wrt (notAfter comparefn) zs"
  using assms(3-)
proof (induction ys)
  case Nil
  then show ?case by simp
next
  case (Cons y ys)
  from SortCompare_total [OF c] obtain v where v: "SortCompare comparefn x y = Inr v" by blast
  from Cons.prems have xS: "x \<in> S" and yS: "y \<in> S" and ysS: "set ys \<subseteq> S"
    and y_ys: "\<forall>z\<in>set ys. notAfter comparefn y z" and s_ys: "sorted_wrt (notAfter comparefn) ys"
    by simp_all
  show ?case
  proof (cases "is_positive v")
    case True
    with v have "\<not> notAfter comparefn x y" by (simp add: notAfter_def)
    with ord xS yS have yx: "notAfter comparefn y x"
      unfolding total_preorder_on_def by blast
    from Cons.IH [OF xS ysS s_ys] obtain zs where zs: "insertSorted comparefn x ys = Inr zs"
      "set zs = insert x (set ys)" "sorted_wrt (notAfter comparefn) zs"
      by blast
    from yx y_ys zs(2,3) have "sorted_wrt (notAfter comparefn) (y # zs)" by simp
    with v True zs(1,2) show ?thesis by auto
  next
    case False
    with v have xy: "notAfter comparefn x y" by (simp add: notAfter_def)
    have "notAfter comparefn x z" if "z \<in> set ys" for z
    proof -
      from y_ys that have "notAfter comparefn y z" by simp
      moreover from that ysS have "z \<in> S" by blast
      ultimately show ?thesis
        using ord xy xS yS unfolding total_preorder_on_def by blast
    qed
    with xy y_ys s_ys have "sorted_wrt (notAfter comparefn) (x # y # ys)" by simp
    with v False show ?thesis by auto
  qed
qed

lemma sortValues_sorted:
  assumes c: "callable comparefn"
    and ord: "total_preorder_on S (notAfter comparefn)"
    and "set xs \<subseteq> S"
  shows "\<exists>ys. sortValues comparefn xs = Inr ys \<and> set ys = set xs
           \<and> sorted_wrt (notAfter comparefn) ys"
  using assms(3)
proof (induction xs)
  case Nil
  then show ?case by simp
next
  case (Cons x xs)
  then obtain ys where ys: "sortValues comparefn xs = Inr ys" "set ys = set xs"
    "sorted_wrt (notAfter comparefn) ys"
    by auto
  from Cons.prems ys(2) have "x \<in> S" "set ys \<subseteq> S" by simp_all
  from insertSorted_sorted [OF c ord this ys(3)]
  obtain zs where "insertSorted comparefn x ys = Inr zs" "set zs = insert x (set ys)"
    "sorted_wrt (notAfter comparefn) zs"
    by blast
  with ys(1,2) show ?case by simp
qed

lemma notAfter_Str_Undefined: "notAfter comparefn x (Str b) \<Longrightarrow> \<exists>a. x = Str a"
  using notAfter_Undefined(2) [of "Str b" comparefn] by (cases x) auto

lemma compareStrings_total_order:
  assumes "consistent_collation lc"
  shows "total_preorder_on UNIV (notAfter (compareStrings lc))"
proof -
  from assms have sym: "\<And>a b. is_positive (lc a b) \<Longrightarrow> is_negative (lc b a)"
    and tr: "\<And>a b c. \<not> is_positive (lc a b) \<Longrightarrow> \<not> is_positive (lc b c) \<Longrightarrow> \<not> is_positive (lc a c)"
    unfolding consistent_collation_def by blast+
  have "notAfter (compareStrings lc) x y \<or> notAfter (compareStrings lc) y x" for x y
  proof (cases x)
    case Undefined
    then show ?thesis by (simp add: notAfter_Undefined)
  next
    case x: (Str a)
    show ?thesis
    proof (cases y)
      case Undefined
      then show ?thesis by (simp add: notAfter_Undefined)
    next
      case (Str b)
      show ?thesis
        unfolding x Str notAfter_compareStrings
        using sym [of a b] is_negative_not_positive [of "lc b a"] by blast
    qed
  qed
  moreover have "notAfter (compareStrings lc) x z"
    if xy: "notAfter (compareStrings lc) x y" and yz: "notAfter (compareStrings lc) y z" for x y z
  proof (cases z)
    case Undefined
    then show ?thesis by (simp add: notAfter_Undefined)
  next
    case z: (Str c)
    from yz obtain b where y: "y = Str b" unfolding z by (auto dest: notAfter_Str_Undefined)
    from xy obtain a where x: "x = Str a" unfolding y by (auto dest: notAfter_Str_Undefined)
    from xy yz show ?thesis
      unfolding x y z notAfter_compareStrings by (rule tr)
  qed
  ultimately show ?thesis
    unfolding total_preorder_on_def by blast
qed

lemma compareNumbers_total_order:
  "total_preorder_on {v. v = Undefined \<or> ToNumber v \<noteq> NaN} (notAfter compareNumbers)"
proof -
  let ?S = "{v. v = Undefined \<or> ToNumber v \<noteq> NaN}"
  have str: "notAfter compareNumbers (Str a) (Str b) \<longleftrightarrow>
      \<not> number_less (StringToNumber b) (StringToNumber a)"
    if "Str a \<in> ?S" "Str b \<in> ?S" for a b
    using that by (simp add: notAfter_compareNumbers is_positive_minus)
  have "notAfter compareNumbers x y \<or> notAfter compareNumbers y x"
    if "x \<in> ?S" "y \<in> ?S" for x y
  proof (cases x)
    case Undefined
    then show ?thesis by (simp add: notAfter_Undefined)
  next
    case x: (Str a)
    show ?thesis
    proof (cases y)
      case Undefined
      then show ?thesis by (simp add: notAfter_Undefined)
    next
      case (Str b)
      from that show ?thesis
        unfolding x Str using str number_less_asym [of "StringToNumber a" "StringToNumber b"]
        by blast
    qed
  qed
  moreover have "notAfter compareNumbers x z"
    if S: "x \<in> ?S" "y \<in> ?S" "z \<in> ?S"
      and xy: "notAfter compareNumbers x y" and yz: "notAfter compareNumbers y z" for x y z
  proof (cases z)
    case Undefined
    then show ?thesis by (simp add: notAfter_Undefined)
  next
    case z: (Str c)
    from yz obtain b where y: "y = Str b" unfolding z by (auto dest: notAfter_Str_Undefined)
    from xy obtain a where x: "x = Str a" unfolding y by (auto dest: notAfter_Str_Undefined)
    from S have n: "StringToNumber a \<noteq> NaN" "StringToNumber b \<noteq> NaN" "StringToNumber c \<noteq> NaN"
      unfolding x y z by simp_all
    from xy yz S have "\<not> number_less (StringToNumber b) (StringToNumber a)"
      "\<not> number_less (StringToNumber c) (StringToNumber b)"
      unfolding x y z by (simp_all add: str)
    with n have "\<not> number_less (StringToNumber c) (StringToNumber a)"
      by (rule number_less_trans)
    with S show ?thesis unfolding x y z by (simp add: str)
  qed
  ultimately show ?thesis
    unfolding total_preorder_on_def by blast
qed

lemma numeric_test_ToNumber:
  assumes "t \<in> set (knownTypes lc)" "id' t \<in> {''INTEGER'', ''BIGINT'', ''REAL''}"
    and "test t vs" "v \<in> set vs"
  shows "v = Undefined \<or> ToNumber v \<noteq> NaN"
proof (cases v)
  case Undefined
  then show ?thesis by simp
next
  case (Str s)
  with assms have "RegExp_test (regExp t) s"
    by (auto simp: knownTypes_test list_all_iff)
  from numeric_test_decimal [OF assms(1,2) this] obtain sg ip dot fp
    where "s = sg @ ip @ dot @ fp" "decimalParts sg ip dot fp" by blast
  then have "StringToNumber s \<noteq> NaN"
    using StringToNumber_decimal [of sg ip fp dot]
    by (simp add: decimalParts_def number_of_decimal_neq_NaN)
  with Str show ?thesis by simp
qed

lemma sortValues_inferType:
  assumes "consistent_collation lc"
  shows "\<exists>ys. sortValues (compareFunction (inferType lc vs)) vs = Inr ys \<and> mset ys = mset vs
           \<and> sorted_wrt (notAfter (compareFunction (inferType lc vs))) ys
           \<and> (\<forall>v\<in>set vs. notAfter (compareFunction (inferType lc vs)) v v)"
proof -
  let ?t = "inferType lc vs"
  have "\<exists>ys. sortValues (compareFunction ?t) vs = Inr ys
           \<and> sorted_wrt (notAfter (compareFunction ?t)) ys
           \<and> (\<forall>v\<in>set vs. notAfter (compareFunction ?t) v v)"
  proof (cases "compareFunction ?t = compareStrings lc")
    case True
    note ord = compareStrings_total_order [OF assms]
    from ord have "notAfter (compareStrings lc) v v" for v
      unfolding total_preorder_on_def by blast
    with sortValues_sorted [OF callable_compareStrings ord, of vs]
    show ?thesis unfolding True by auto
  next
    case False
    with inferType_cases [of lc vs] knownTypes_compareFunction [of ?t lc]
    have t: "?t \<in> set (knownTypes lc)" "id' ?t \<in> {''INTEGER'', ''BIGINT'', ''REAL''}"
      "compareFunction ?t = compareNumbers" "test ?t vs"
      by (auto simp: defaultType_def)
    have S: "set vs \<subseteq> {v. v = Undefined \<or> ToNumber v \<noteq> NaN}"
      using numeric_test_ToNumber [OF t(1,2,4)] by auto
    from compareNumbers_total_order S have "notAfter compareNumbers v v" if "v \<in> set vs" for v
      using that unfolding total_preorder_on_def by blast
    with sortValues_sorted [OF callable_compareNumbers compareNumbers_total_order S]
    show ?thesis unfolding t(3) by auto
  qed
  moreover from sortValues_total [OF callable_inferType, of lc vs vs]
  obtain ys' where "sortValues (compareFunction ?t) vs = Inr ys'" "mset ys' = mset vs" by blast
  ultimately show ?thesis by auto
qed

lemma compareCodeUnits_sym:
  "is_positive (compareCodeUnits a b) \<longleftrightarrow> is_negative (compareCodeUnits b a)"
  by (induction a b rule: compareCodeUnits.induct) auto

lemma compareCodeUnits_Cons:
  "\<not> is_positive (compareCodeUnits (x # xs) (y # ys)) \<longleftrightarrow>
     x < y \<or> (x = y \<and> \<not> is_positive (compareCodeUnits xs ys))"
  by auto

lemma compareCodeUnits_trans:
  "\<not> is_positive (compareCodeUnits a b) \<Longrightarrow> \<not> is_positive (compareCodeUnits b c) \<Longrightarrow>
     \<not> is_positive (compareCodeUnits a c)"
proof (induction a arbitrary: b c)
  case Nil
  then show ?case by (cases c) simp_all
next
  case (Cons x xs)
  from Cons.prems(1) obtain y ys where b: "b = y # ys" by (cases b) simp_all
  from Cons.prems(2) obtain z zs where c: "c = z # zs" unfolding b by (cases c) simp_all
  from Cons.prems have 1: "x < y \<or> (x = y \<and> \<not> is_positive (compareCodeUnits xs ys))"
    and 2: "y < z \<or> (y = z \<and> \<not> is_positive (compareCodeUnits ys zs))"
    unfolding b c compareCodeUnits_Cons by simp_all
  from 1 2 Cons.IH [of ys zs]
  have "x < z \<or> (x = z \<and> \<not> is_positive (compareCodeUnits xs zs))"
    by (metis order_less_trans)
  then show ?case unfolding c compareCodeUnits_Cons .
qed

lemma consistent_compareCodeUnits: "consistent_collation compareCodeUnits"
  unfolding consistent_collation_def
  using compareCodeUnits_sym compareCodeUnits_trans by blast

subsection \<open>Integer literals and the column 9, 10, 2\<close>

lemma StringToNumber_integer:
  assumes "sg \<in> {[], [0x2D]}" "ip \<noteq> []" "list_all isDigit ip" "length ip \<le> 15"
  shows "StringToNumber (sg @ ip) =
           number_of_int (if sg = [] then int (digitsValue 10 ip) else - int (digitsValue 10 ip))"
proof -
  have "digitsValue 10 ip < 10 ^ length ip"
    using assms(3) by (rule digitsValue_bound)
  also have "\<dots> \<le> (10::nat) ^ 15"
    using assms(4) by (intro power_increasing) simp_all
  also have "\<dots> < 2 ^ 53" by simp
  finally have b: "digitsValue 10 ip < 2 ^ 53" .
  from StringToNumber_decimal [of sg ip "[]" "[]"] assms
  have "StringToNumber (sg @ ip) = number_of_decimal (sg \<noteq> []) (digitsValue 10 ip) 0"
    by simp
  with number_of_decimal_exact [OF b] show ?thesis by simp
qed

lemma SortCompare_compareNumbers_int:
  assumes "StringToNumber a = number_of_int m" "StringToNumber b = number_of_int n"
  shows "\<exists>v. SortCompare compareNumbers (Str a) (Str b) = Inr v \<and> (is_positive v \<longleftrightarrow> n < m)"
proof -
  have "number_of_int m \<noteq> NaN" "number_of_int n \<noteq> NaN" by (simp_all add: number_of_int_def)
  then have "is_positive (number_minus (number_of_int m) (number_of_int n)) \<longleftrightarrow> n < m"
    by (simp add: is_positive_minus)
  then show ?thesis
    by (simp add: SortCompare_def compareNumbers_def assms)
qed

lemma ToNumber_9_10_2:
  "StringToNumber (js ''9'') = number_of_int 9"
  "StringToNumber (js ''10'') = number_of_int 10"
  "StringToNumber (js ''2'') = number_of_int 2"
proof -
  have d: "digitsValue 10 (js ''9'') = 9" "digitsValue 10 (js ''10'') = 10"
    "digitsValue 10 (js ''2'') = 2"
    by code_simp+
  have l: "list_all isDigit (js ''9'')" "list_all isDigit (js ''10'')" "list_all isDigit (js ''2'')"
    by code_simp+
  show "StringToNumber (js ''9'') = number_of_int 9"
    using StringToNumber_integer [of "[]" "js ''9''"] d l by (simp add: js_def)
  show "StringToNumber (js ''10'') = number_of_int 10"
    using StringToNumber_integer [of "[]" "js ''10''"] d l by (simp add: js_def)
  show "StringToNumber (js ''2'') = number_of_int 2"
    using StringToNumber_integer [of "[]" "js ''2''"] d l by (simp add: js_def)
qed

lemma sortValues_9_10_2:
  "sortValues compareNumbers [Str (js ''9''), Str (js ''10''), Str (js ''2'')] =
     Inr [Str (js ''2''), Str (js ''9''), Str (js ''10'')]"
proof -
  from SortCompare_compareNumbers_int [OF ToNumber_9_10_2(2) ToNumber_9_10_2(3)]
  obtain v1 where v1: "SortCompare compareNumbers (Str (js ''10'')) (Str (js ''2'')) = Inr v1"
    "is_positive v1" by auto
  from SortCompare_compareNumbers_int [OF ToNumber_9_10_2(1) ToNumber_9_10_2(3)]
  obtain v2 where v2: "SortCompare compareNumbers (Str (js ''9'')) (Str (js ''2'')) = Inr v2"
    "is_positive v2" by auto
  from SortCompare_compareNumbers_int [OF ToNumber_9_10_2(1) ToNumber_9_10_2(2)]
  obtain v3 where v3: "SortCompare compareNumbers (Str (js ''9'')) (Str (js ''10'')) = Inr v3"
    "\<not> is_positive v3" by auto
  show ?thesis by (simp add: v1 v2 v3)
qed

lemma inferType_9_10_2:
  "inferType lc [Str (js ''9''), Str (js ''10''), Str (js ''2'')] = knownTypes lc ! 2"
proof (rule inferType_nth)
  show "\<forall>j<2. \<not> test (knownTypes lc ! j) [Str (js ''9''), Str (js ''10''), Str (js ''2'')]"
  proof (intro allI impI)
    fix j :: nat assume "j < 2"
    then have "j = 0 \<or> j = 1" by auto
    moreover have "\<not> test (knownTypes lc ! 0) [Str (js ''9''), Str (js ''10''), Str (js ''2'')]"
      by code_simp
    moreover have "\<not> test (knownTypes lc ! 1) [Str (js ''9''), Str (js ''10''), Str (js ''2'')]"
      by code_simp
    ultimately show "\<not> test (knownTypes lc ! j) [Str (js ''9''), Str (js ''10''), Str (js ''2'')]"
      by auto
  qed
  show "test (knownTypes lc ! 2) [Str (js ''9''), Str (js ''10''), Str (js ''2'')]"
    by code_simp
qed (simp_all add: knownTypes_length)

lemma synopsize_9_10_2:
  assumes "a < length h" "h ! a = [Str (js ''9''), Str (js ''10''), Str (js ''2'')]"
  shows "synopsize lc h a =
     Inr (h @ [[Str (js ''2''), Str (js ''9''), Str (js ''10'')]],
          \<lparr>typeName = ''INTEGER'', values = a, nonEmptyValues = length h,
           minimum = Str (js ''2''), maximum = Str (js ''10''),
           counts = [(Str (js ''2''), 1), (Str (js ''9''), 1), (Str (js ''10''), 1)]\<rparr>)"
proof -
  have p: "present (h ! a) = [Str (js ''9''), Str (js ''10''), Str (js ''2'')]"
    unfolding assms(2) present_def by code_simp
  have t: "id' (knownTypes lc ! 2) = ''INTEGER''" "compareFunction (knownTypes lc ! 2) = compareNumbers"
    by (simp_all add: knownTypes_def)
  have c: "count [Str (js ''2''), Str (js ''9''), Str (js ''10'')] =
      [(Str (js ''2''), 1), (Str (js ''9''), 1), (Str (js ''10''), 1)]"
    by code_simp
  have s: "sortValues (compareFunction (inferType lc (present (h ! a)))) (present (h ! a)) =
      Inr [Str (js ''2''), Str (js ''9''), Str (js ''10'')]"
    by (simp only: p inferType_9_10_2 t sortValues_9_10_2)
  show ?thesis
    unfolding synopsize_unfold [OF assms(1)] s
    by (simp add: p inferType_9_10_2 t c)
qed

lemma sorted_wrt_hd_last:
  "sorted_wrt R xs \<Longrightarrow> \<forall>v\<in>set xs. R v v \<Longrightarrow> v \<in> set xs \<Longrightarrow> R (hd xs) v \<and> R v (last xs)"
proof (induction xs)
  case Nil
  then show ?case by simp
next
  case (Cons x xs)
  show ?case
  proof (cases "xs = []")
    case True
    with Cons.prems show ?thesis by simp
  next
    case False
    then have "last xs \<in> set xs" by simp
    with Cons show ?thesis by auto
  qed
qed






subsection \<open>Integer literals longer than a double's 53 bits\<close>













section \<open>The claims\<close>

text \<open>
  C1. On a non-empty sequence the classifier returns the first type of the list
  DATETIME, DATE, INTEGER, BIGINT, REAL, TIME whose pattern matches every value, and
  TEXT when there is none; so it returns TEXT as soon as one value matches no pattern.
  On the empty sequence it returns TEXT without a test, which is what \<open>synopsize\<close>
  reports for a column that has no value left after the filter.
\<close>

theorem inferType_first_match:
  "map id' (knownTypes lc) = [''DATETIME'', ''DATE'', ''INTEGER'', ''BIGINT'', ''REAL'', ''TIME'']
   \<and> (vs \<noteq> [] \<longrightarrow> inferType lc vs =
        (case find (\<lambda>t. list_all (\<lambda>v. RegExp_test (regExp t) (String v)) vs) (knownTypes lc) of
           Some t \<Rightarrow> t | None \<Rightarrow> defaultType lc))
   \<and> (vs \<noteq> [] \<longrightarrow> (\<exists>v\<in>set vs. \<forall>t\<in>set (knownTypes lc). \<not> RegExp_test (regExp t) (String v))
        \<longrightarrow> id' (inferType lc vs) = ''TEXT'')
   \<and> inferType lc [] = defaultType lc \<and> id' (defaultType lc) = ''TEXT''
   \<and> (a < length h \<longrightarrow> present (h ! a) = [] \<longrightarrow>
        (\<exists>h' r. synopsize lc h a = Inr (h', r) \<and> typeName r = ''TEXT''))"
proof (intro conjI impI)
  show "map id' (knownTypes lc) = [''DATETIME'', ''DATE'', ''INTEGER'', ''BIGINT'', ''REAL'', ''TIME'']"
    by (rule knownTypes_ids)
  show "inferType lc [] = defaultType lc" by (simp add: inferType_def)
  show "id' (defaultType lc) = ''TEXT''" by (simp add: defaultType_def)
next
  assume "vs \<noteq> []"
  then show "inferType lc vs =
        (case find (\<lambda>t. list_all (\<lambda>v. RegExp_test (regExp t) (String v)) vs) (knownTypes lc) of
           Some t \<Rightarrow> t | None \<Rightarrow> defaultType lc)"
    by (rule inferType_find)
next
  assume "\<exists>v\<in>set vs. \<forall>t\<in>set (knownTypes lc). \<not> RegExp_test (regExp t) (String v)"
  then show "id' (inferType lc vs) = ''TEXT''"
    using inferType_fallback by (auto simp: defaultType_def)
next
  assume "a < length h" and "present (h ! a) = []"
  then show "\<exists>h' r. synopsize lc h a = Inr (h', r) \<and> typeName r = ''TEXT''"
    using synopsize_result [of a h lc] by (auto simp: inferType_def defaultType_def)
qed

theorem inferType_first_match_witness:
  "id' (inferType compareCodeUnits [Str (js ''20160118''), Str (js ''-5'')]) = ''INTEGER''
   \<and> id' (inferType compareCodeUnits [Str (js ''7''), Str (js ''hello'')]) = ''TEXT''
   \<and> (\<exists>h' r. synopsize compareCodeUnits [[Str (js '' ''), Str []]] 0 = Inr (h', r) \<and> typeName r = ''TEXT'')"
proof -
  note thm1 = inferType_first_match [of compareCodeUnits "[Str (js ''20160118''), Str (js ''-5'')]" 0 "[[Str (js '' ''), Str []]]"]
  note thm2 = inferType_first_match [of compareCodeUnits "[Str (js ''7''), Str (js ''hello'')]" 0 "[[Str (js '' ''), Str []]]"]
  have f: "id' (case find (\<lambda>t. list_all (\<lambda>v. RegExp_test (regExp t) (String v))
                                [Str (js ''20160118''), Str (js ''-5'')])
                      (knownTypes compareCodeUnits) of
               Some t \<Rightarrow> t | None \<Rightarrow> defaultType compareCodeUnits) = ''INTEGER''"
    by code_simp
  have g: "\<forall>t\<in>set (knownTypes compareCodeUnits). \<not> RegExp_test (regExp t) (String (Str (js ''hello'')))"
    by code_simp
  have e: "present ([[Str (js '' ''), Str []]] ! 0) = []"
    unfolding present_def by code_simp
  from thm1 f have 1: "id' (inferType compareCodeUnits [Str (js ''20160118''), Str (js ''-5'')]) = ''INTEGER''"
    by simp
  have 2: "id' (inferType compareCodeUnits [Str (js ''7''), Str (js ''hello'')]) = ''TEXT''"
  proof (rule thm2 [THEN conjunct2, THEN conjunct2, THEN conjunct1, rule_format])
    show "[Str (js ''7''), Str (js ''hello'')] \<noteq> []" by simp
    show "\<exists>v\<in>set [Str (js ''7''), Str (js ''hello'')].
            \<forall>t\<in>set (knownTypes compareCodeUnits). \<not> RegExp_test (regExp t) (String v)"
      using g by simp
  qed
  from thm1 e have 3: "\<exists>h' r. synopsize compareCodeUnits [[Str (js '' ''), Str []]] 0 = Inr (h', r) \<and> typeName r = ''TEXT''"
    by simp
  from 1 2 3 show ?thesis by blast
qed

text \<open>
  C2. The column \<^verbatim>\<open>["", "  ", undefined]\<close>. The filter of \<open>synopsize\<close> gives
  \<open>isEmpty\<close> the string \<^verbatim>\<open>String(value)\<close>, which is \<^verbatim>\<open>"undefined"\<close> for the undefined
  value, so that the test \<^verbatim>\<open>value === undefined\<close> of \<open>isEmpty\<close> never holds there: the
  undefined value stays in \<open>nonEmptyValues\<close> and is counted.
\<close>

theorem synopsize_all_missing_column:
  "isEmpty Undefined \<and> \<not> isEmpty (Str (String Undefined)) \<and>
   synopsize lc [[Str (js ''''), Str (js ''  ''), Undefined]] 0 =
     Inr ([[Str (js ''''), Str (js ''  ''), Undefined], [Undefined]],
          \<lparr>typeName = ''TEXT'', values = 0, nonEmptyValues = 1,
           minimum = Undefined, maximum = Undefined, counts = [(Undefined, 1)]\<rparr>)"
proof -
  have p: "present [Str (js ''''), Str (js ''  ''), Undefined] = [Undefined]"
    unfolding present_def by code_simp
  have "inferType lc [Undefined] = defaultType lc"
    by (rule inferType_fallback [of Undefined]) (simp_all add: no_pattern_undefined)
  moreover have "count [Undefined :: jsvalue] = [(Undefined, 1)]" by code_simp
  moreover have "isEmpty Undefined" by (simp add: isEmpty_def)
  moreover have "\<not> isEmpty (Str (String Undefined))" by code_simp
  ultimately show ?thesis
    by (simp add: synopsize_unfold p defaultType_def)
qed

text \<open>
  C3. \<open>nonEmptyValues\<close> does not keep the order of the column: for the column
  \<^verbatim>\<open>["9", "10", "2"]\<close>, where the emptiness predicate is false of every value, it is
  \<^verbatim>\<open>["2", "9", "10"]\<close>.
\<close>

theorem nonEmptyValues_order_counterexample:
  "synopsize compareCodeUnits [[Str (js ''9''), Str (js ''10''), Str (js ''2'')]] 0 =
     Inr ([[Str (js ''9''), Str (js ''10''), Str (js ''2'')],
           [Str (js ''2''), Str (js ''9''), Str (js ''10'')]],
          \<lparr>typeName = ''INTEGER'', values = 0, nonEmptyValues = 1,
           minimum = Str (js ''2''), maximum = Str (js ''10''),
           counts = [(Str (js ''2''), 1), (Str (js ''9''), 1), (Str (js ''10''), 1)]\<rparr>)
   \<and> [[Str (js ''9''), Str (js ''10''), Str (js ''2'')],
        [Str (js ''2''), Str (js ''9''), Str (js ''10'')]] ! 1
      \<noteq> filter (\<lambda>v. \<not> isEmpty v) ([[Str (js ''9''), Str (js ''10''), Str (js ''2'')]] ! 0)"
proof -
  have p: "filter (\<lambda>v. \<not> isEmpty v) ([[Str (js ''9''), Str (js ''10''), Str (js ''2'')]] ! 0)
      = [Str (js ''9''), Str (js ''10''), Str (js ''2'')]"
    by code_simp
  have "js ''2'' \<noteq> js ''9''" by (simp add: js_def)
  with synopsize_9_10_2 [of 0 "[[Str (js ''9''), Str (js ''10''), Str (js ''2'')]]" compareCodeUnits]
  show ?thesis unfolding p by simp
qed

text \<open>
  C3, amended. The strings of \<open>nonEmptyValues\<close> are the values of the column of which the
  emptiness predicate \<open>isEmpty\<close> is false, each as often as the column has it. When no
  cell of the column is \<open>undefined\<close>, \<open>nonEmptyValues\<close> holds exactly those values, in the
  order in which the sort with the comparator of the inferred type leaves them, which
  need not be the order of the column.
\<close>

theorem synopsize_nonEmptyValues_permutation:
  "a < length h \<Longrightarrow>
     \<exists>h' r. synopsize lc h a = Inr (h', r)
       \<and> mset (filter (\<lambda>v. v \<noteq> Undefined) (h' ! nonEmptyValues r))
           = mset (filter (\<lambda>v. \<not> isEmpty v) (h ! a))
       \<and> (Undefined \<notin> set (h ! a) \<longrightarrow>
            mset (h' ! nonEmptyValues r) = mset (filter (\<lambda>v. \<not> isEmpty v) (h ! a))
            \<and> sortValues (compareFunction (inferType lc (filter (\<lambda>v. \<not> isEmpty v) (h ! a))))
                 (filter (\<lambda>v. \<not> isEmpty v) (h ! a)) = Inr (h' ! nonEmptyValues r))"
proof -
  assume a: "a < length h"
  let ?ne = "filter (\<lambda>v. \<not> isEmpty v) (h ! a)"
  from synopsize_result [OF a, of lc] obtain xs where
    s: "sortValues (compareFunction (inferType lc (present (h ! a)))) (present (h ! a)) = Inr xs"
    and m: "mset xs = mset (present (h ! a))" and
    r: "synopsize lc h a =
         Inr (h @ [xs],
              \<lparr>typeName = id' (inferType lc (present (h ! a))), values = a,
               nonEmptyValues = length h,
               minimum = (if xs = [] then Undefined else hd xs),
               maximum = (if xs = [] then Undefined else last xs),
               counts = count xs\<rparr>)"
    by blast
  have "(\<not> isEmpty (Str (String v)) \<and> v \<noteq> Undefined) = (\<not> isEmpty v)" for v
    by (cases v) (simp_all add: isEmpty_def)
  then have "filter (\<lambda>v. v \<noteq> Undefined) (present (h ! a)) = ?ne"
    unfolding present_def filter_filter by (intro filter_cong) simp_all
  moreover have "mset (filter (\<lambda>v. v \<noteq> Undefined) xs)
      = mset (filter (\<lambda>v. v \<noteq> Undefined) (present (h ! a)))"
    using m by (simp only: mset_filter)
  ultimately have c: "mset (filter (\<lambda>v. v \<noteq> Undefined) xs) = mset ?ne" by simp
  have u: "present (h ! a) = ?ne" if "Undefined \<notin> set (h ! a)"
  proof -
    have "Str (String v) = v" if "v \<in> set (h ! a)" for v
    proof (cases v)
      case Undefined
      with that \<open>Undefined \<notin> set (h ! a)\<close> show ?thesis by simp
    next
      case (Str s)
      then show ?thesis by simp
    qed
    then show ?thesis
      unfolding present_def by (intro filter_cong) simp_all
  qed
  from c m s u show ?thesis
    unfolding r
    by (intro exI [of _ "h @ [xs]"] exI [of _ "\<lparr>typeName = id' (inferType lc (present (h ! a))),
               values = a, nonEmptyValues = length h,
               minimum = (if xs = [] then Undefined else hd xs),
               maximum = (if xs = [] then Undefined else last xs),
               counts = count xs\<rparr>"]) auto
qed

theorem synopsize_nonEmptyValues_permutation_witness:
  "(0::nat) < length [[Str (js ''9''), Str (js '' ''), Str (js ''10''), Str (js ''2'')]]
   \<and> Undefined \<notin> set ([[Str (js ''9''), Str (js '' ''), Str (js ''10''), Str (js ''2'')]] ! 0)
   \<and> (\<exists>h' r. synopsize compareCodeUnits [[Str (js ''9''), Str (js '' ''), Str (js ''10''), Str (js ''2'')]] 0 = Inr (h', r)
        \<and> mset (h' ! nonEmptyValues r) = mset [Str (js ''9''), Str (js ''10''), Str (js ''2'')])"
proof -
  have p: "filter (\<lambda>v. \<not> isEmpty v) [Str (js ''9''), Str (js '' ''), Str (js ''10''), Str (js ''2'')]
      = [Str (js ''9''), Str (js ''10''), Str (js ''2'')]"
    by code_simp
  from synopsize_nonEmptyValues_permutation
    [of 0 "[[Str (js ''9''), Str (js '' ''), Str (js ''10''), Str (js ''2'')]]" compareCodeUnits]
  show ?thesis unfolding nth_Cons_0 p by auto
qed

text \<open>
  C4. \<open>minimum\<close> and \<open>maximum\<close> are the first and the last element of the values kept
  by the filter, sorted with the comparator of the inferred type, and both are
  \<open>undefined\<close> when the filter keeps nothing. Under a consistent collation no kept value
  comes before the minimum or after the maximum in the order of that comparator.
\<close>

theorem synopsize_extrema:
  "a < length h \<Longrightarrow>
     \<exists>h' r xs. synopsize lc h a = Inr (h', r)
       \<and> sortValues (compareFunction (inferType lc (present (h ! a)))) (present (h ! a)) = Inr xs
       \<and> mset xs = mset (present (h ! a))
       \<and> typeName r = id' (inferType lc (present (h ! a)))
       \<and> (present (h ! a) = [] \<longrightarrow> minimum r = Undefined \<and> maximum r = Undefined)
       \<and> (present (h ! a) \<noteq> [] \<longrightarrow> minimum r = hd xs \<and> maximum r = last xs)
       \<and> (consistent_collation lc \<longrightarrow>
            (\<forall>v\<in>set (present (h ! a)).
               notAfter (compareFunction (inferType lc (present (h ! a)))) (minimum r) v
               \<and> notAfter (compareFunction (inferType lc (present (h ! a)))) v (maximum r)))"
proof -
  assume a: "a < length h"
  let ?ne = "present (h ! a)"
  let ?cmp = "compareFunction (inferType lc ?ne)"
  from synopsize_result [OF a, of lc] obtain xs where
    s: "sortValues ?cmp ?ne = Inr xs" and m: "mset xs = mset ?ne" and
    r: "synopsize lc h a =
         Inr (h @ [xs],
              \<lparr>typeName = id' (inferType lc ?ne), values = a,
               nonEmptyValues = length h,
               minimum = (if xs = [] then Undefined else hd xs),
               maximum = (if xs = [] then Undefined else last xs),
               counts = count xs\<rparr>)"
    by blast
  from m have e: "xs = [] \<longleftrightarrow> ?ne = []" by (metis mset_zero_iff)
  have "notAfter ?cmp (hd xs) v \<and> notAfter ?cmp v (last xs)"
    if c: "consistent_collation lc" and v: "v \<in> set ?ne" for v
  proof -
    from sortValues_inferType [OF c, of ?ne] s
    have "sorted_wrt (notAfter ?cmp) xs" "\<forall>v\<in>set ?ne. notAfter ?cmp v v" by auto
    moreover from m have "set xs = set ?ne" by (rule mset_eq_setD)
    ultimately show ?thesis using v by (intro sorted_wrt_hd_last) auto
  qed
  then show ?thesis
    unfolding r using s m e
    by (intro exI [of _ "h @ [xs]"] exI [of _ "\<lparr>typeName = id' (inferType lc ?ne), values = a,
               nonEmptyValues = length h,
               minimum = (if xs = [] then Undefined else hd xs),
               maximum = (if xs = [] then Undefined else last xs),
               counts = count xs\<rparr>"] exI [of _ xs]) auto
qed

theorem synopsize_extrema_witness:
  "(0::nat) < length [[Str (js ''9''), Str (js ''10''), Str (js ''2'')]]
   \<and> present ([[Str (js ''9''), Str (js ''10''), Str (js ''2'')]] ! 0) \<noteq> []
   \<and> consistent_collation compareCodeUnits
   \<and> (\<exists>h' r xs. synopsize compareCodeUnits [[Str (js ''9''), Str (js ''10''), Str (js ''2'')]] 0 = Inr (h', r)
        \<and> sortValues (compareFunction (inferType compareCodeUnits
              (present ([[Str (js ''9''), Str (js ''10''), Str (js ''2'')]] ! 0))))
              (present ([[Str (js ''9''), Str (js ''10''), Str (js ''2'')]] ! 0)) = Inr xs
        \<and> minimum r = hd xs \<and> maximum r = last xs
        \<and> minimum r = Str (js ''2'') \<and> maximum r = Str (js ''10''))"
proof -
  let ?h = "[[Str (js ''9''), Str (js ''10''), Str (js ''2'')]]"
  have p: "present (?h ! 0) \<noteq> []"
    unfolding present_def by code_simp
  from synopsize_extrema [of 0 ?h compareCodeUnits] p
  obtain h' r xs where r: "synopsize compareCodeUnits ?h 0 = Inr (h', r)"
    "sortValues (compareFunction (inferType compareCodeUnits (present (?h ! 0)))) (present (?h ! 0)) = Inr xs"
    "minimum r = hd xs" "maximum r = last xs"
    by auto
  from r(1) synopsize_9_10_2 [of 0 ?h compareCodeUnits]
  have "minimum r = Str (js ''2'')" "maximum r = Str (js ''10'')" by auto
  with r p consistent_compareCodeUnits show ?thesis by auto
qed




text \<open>
  C6. A column that is not empty and holds nothing but the string \<^verbatim>\<open>20160118\<close> has
  the type DATE: DATE stands before INTEGER in the list, and the test of INTEGER holds
  on the column as well.
\<close>

theorem synopsize_date_before_integer:
  "a < length h \<Longrightarrow> h ! a \<noteq> [] \<Longrightarrow> set (h ! a) \<subseteq> {Str (js ''20160118'')} \<Longrightarrow>
     \<exists>h' r. synopsize lc h a = Inr (h', r) \<and> typeName r = ''DATE''
       \<and> map id' (knownTypes lc) ! 1 = ''DATE'' \<and> map id' (knownTypes lc) ! 2 = ''INTEGER''
       \<and> test (knownTypes lc ! 2) (h ! a)"
proof -
  assume a: "a < length h" and ne: "h ! a \<noteq> []" and all: "set (h ! a) \<subseteq> {Str (js ''20160118'')}"
  have "\<not> isEmpty (Str (String (Str (js ''20160118''))))" by code_simp
  with all have p: "present (h ! a) = h ! a"
    unfolding present_def by (intro filter_True) auto
  have t0: "\<not> test (knownTypes lc ! 0) (h ! a)"
    using ne all date_20160118 [of lc]
    by (cases "h ! a") (auto simp: knownTypes_nth_test)
  have t1: "test (knownTypes lc ! 1) (h ! a)"
    using all date_20160118 [of lc] by (auto simp: knownTypes_nth_test list_all_iff)
  have t2: "test (knownTypes lc ! 2) (h ! a)"
    using all date_20160118 [of lc] by (auto simp: knownTypes_nth_test list_all_iff)
  have "inferType lc (h ! a) = knownTypes lc ! 1"
    using ne t0 t1 by (intro inferType_nth) (auto simp: knownTypes_length)
  then have "id' (inferType lc (present (h ! a))) = ''DATE''"
    using p by (simp add: knownTypes_def)
  with synopsize_result [OF a, of lc] t2 show ?thesis
    by (auto simp: knownTypes_ids)
qed

theorem synopsize_date_before_integer_witness:
  "(0::nat) < length [[Str (js ''20160118''), Str (js ''20160118'')]]
   \<and> [[Str (js ''20160118''), Str (js ''20160118'')]] ! 0 \<noteq> []
   \<and> set ([[Str (js ''20160118''), Str (js ''20160118'')]] ! 0) \<subseteq> {Str (js ''20160118'')}
   \<and> (\<exists>h' r. synopsize compareCodeUnits [[Str (js ''20160118''), Str (js ''20160118'')]] 0 = Inr (h', r)
         \<and> typeName r = ''DATE'')"
  using synopsize_date_before_integer [of 0 "[[Str (js ''20160118''), Str (js ''20160118'')]]" compareCodeUnits]
  by auto

text \<open>
  C7. \<open>counts\<close> has one entry for each distinct value of \<open>nonEmptyValues\<close>, which
  gives the number of its occurrences, and no entry for any other value; the counts add
  up to the length of \<open>nonEmptyValues\<close>. The values counted are those that the filter
  kept, each as often as it occurs in the column.
\<close>

theorem synopsize_counts:
  "a < length h \<Longrightarrow>
     \<exists>h' r. synopsize lc h a = Inr (h', r)
       \<and> mset (h' ! nonEmptyValues r) = mset (present (h ! a))
       \<and> distinct (map fst (counts r))
       \<and> (\<forall>v. map_of (counts r) v =
                (if v \<in> set (h' ! nonEmptyValues r)
                 then Some (count_list (h' ! nonEmptyValues r) v) else None))
       \<and> sum_list (map snd (counts r)) = length (h' ! nonEmptyValues r)"
proof -
  assume "a < length h"
  from synopsize_result [OF this, of lc] obtain xs where
    xs: "mset xs = mset (present (h ! a))" and
    r: "synopsize lc h a =
         Inr (h @ [xs],
              \<lparr>typeName = id' (inferType lc (present (h ! a))), values = a,
               nonEmptyValues = length h,
               minimum = (if xs = [] then Undefined else hd xs),
               maximum = (if xs = [] then Undefined else last xs),
               counts = count xs\<rparr>)"
    by blast
  show ?thesis
    unfolding r using xs by (simp add: count_distinct count_map_of count_sum)
qed

theorem synopsize_counts_witness:
  "(0::nat) < length [[Str (js ''b''), Str (js '' ''), Str (js ''a''), Str (js ''b'')]]
   \<and> (\<exists>h' r. synopsize compareCodeUnits [[Str (js ''b''), Str (js '' ''), Str (js ''a''), Str (js ''b'')]] 0 = Inr (h', r)
         \<and> map_of (counts r) (Str (js ''b'')) = Some 2
         \<and> map_of (counts r) (Str (js '' '')) = None
         \<and> sum_list (map snd (counts r)) = 3)"
proof -
  let ?c = "[Str (js ''b''), Str (js '' ''), Str (js ''a''), Str (js ''b'')]"
  have p: "present ?c = [Str (js ''b''), Str (js ''a''), Str (js ''b'')]"
    unfolding present_def by code_simp
  from synopsize_counts [of 0 "[?c]" compareCodeUnits]
  obtain h' r where r: "synopsize compareCodeUnits [?c] 0 = Inr (h', r)"
    and e: "mset (h' ! nonEmptyValues r) = mset (present ([?c] ! 0))"
    and m: "\<forall>v. map_of (counts r) v =
                (if v \<in> set (h' ! nonEmptyValues r)
                 then Some (count_list (h' ! nonEmptyValues r) v) else None)"
    and s: "sum_list (map snd (counts r)) = length (h' ! nonEmptyValues r)"
    by auto
  from e p have e': "mset (h' ! nonEmptyValues r) = mset [Str (js ''b''), Str (js ''a''), Str (js ''b'')]"
    by simp
  have c: "count_list (h' ! nonEmptyValues r) v = count_list [Str (js ''b''), Str (js ''a''), Str (js ''b'')] v" for v
    using e' by (metis count_mset)
  have st: "set (h' ! nonEmptyValues r) = set [Str (js ''b''), Str (js ''a''), Str (js ''b'')]"
    using e' by (rule mset_eq_setD)
  have 1: "map_of (counts r) (Str (js ''b'')) = Some 2"
    using m st c by (simp add: js_def)
  have 2: "map_of (counts r) (Str (js '' '')) = None"
    using m st by (simp add: js_def)
  have "length (h' ! nonEmptyValues r) = 3"
    using mset_eq_length [OF e'] by simp
  with r 1 2 s show ?thesis by auto
qed

text \<open>
  C8. \<open>synopsize\<close> returns a synopsis for every column, the empty one and the one with
  nothing but missing values included: no call of a comparator raises. For the column
  \<^verbatim>\<open>["a","a","a"]\<close> the type is TEXT, the minimum and the maximum are \<^verbatim>\<open>"a"\<close> and
  \<open>counts\<close> is the single entry \<^verbatim>\<open>"a"\<close> with 3.
\<close>

theorem synopsize_no_error:
  "a < length h \<Longrightarrow>
     \<exists>h' r. synopsize lc h a = Inr (h', r)
       \<and> (h ! a = [Str (js ''a''), Str (js ''a''), Str (js ''a'')] \<longrightarrow>
            typeName r = ''TEXT'' \<and> minimum r = Str (js ''a'') \<and> maximum r = Str (js ''a'')
            \<and> counts r = [(Str (js ''a''), 3)])"
proof -
  assume a: "a < length h"
  from synopsize_result [OF this, of lc] obtain xs where
    xs: "mset xs = mset (present (h ! a))" and
    r: "synopsize lc h a =
         Inr (h @ [xs],
              \<lparr>typeName = id' (inferType lc (present (h ! a))), values = a,
               nonEmptyValues = length h,
               minimum = (if xs = [] then Undefined else hd xs),
               maximum = (if xs = [] then Undefined else last xs),
               counts = count xs\<rparr>)"
    by blast
  have "typeName (snd (h @ [xs], \<lparr>typeName = id' (inferType lc (present (h ! a))), values = a,
               nonEmptyValues = length h,
               minimum = (if xs = [] then Undefined else hd xs),
               maximum = (if xs = [] then Undefined else last xs),
               counts = count xs\<rparr>)) = ''TEXT'' \<and> xs = replicate 3 (Str (js ''a''))"
    if c: "h ! a = [Str (js ''a''), Str (js ''a''), Str (js ''a'')]"
  proof -
    have p: "present (h ! a) = replicate 3 (Str (js ''a''))"
      unfolding c present_def by code_simp
    have "inferType lc (present (h ! a)) = defaultType lc"
      by (rule inferType_fallback [of "Str (js ''a'')"]) (simp_all add: p no_pattern_a)
    moreover have "xs = replicate 3 (Str (js ''a''))"
      using xs p by (simp add: mset_replicate_eq)
    ultimately show ?thesis by (simp add: defaultType_def)
  qed
  moreover have "count (replicate 3 (Str (js ''a''))) = [(Str (js ''a''), 3)]"
    by code_simp
  ultimately show ?thesis unfolding r by (auto simp: numeral_3_eq_3)
qed

theorem synopsize_no_error_witness:
  "(0::nat) < length [[Str (js ''a''), Str (js ''a''), Str (js ''a'')]]
   \<and> (\<exists>h' r. synopsize compareCodeUnits [[Str (js ''a''), Str (js ''a''), Str (js ''a'')]] 0 = Inr (h', r)
         \<and> typeName r = ''TEXT'' \<and> minimum r = Str (js ''a'') \<and> maximum r = Str (js ''a'')
         \<and> counts r = [(Str (js ''a''), 3)])"
  using synopsize_no_error [of 0 "[[Str (js ''a''), Str (js ''a''), Str (js ''a'')]]" compareCodeUnits]
  by simp

text \<open>
  C9. The field \<open>values\<close> of the result is the reference that was given: the very array
  of the caller. \<open>synopsize\<close> leaves that array, and every other array that existed, as
  it was: the array it sorts is the new one that \<^verbatim>\<open>filter\<close> made.
\<close>

theorem synopsize_keeps_input:
  "a < length h \<Longrightarrow>
     \<exists>h' r. synopsize lc h a = Inr (h', r) \<and> values r = a \<and> h' ! a = h ! a
       \<and> (\<forall>b<length h. h' ! b = h ! b) \<and> nonEmptyValues r \<noteq> a"
  using synopsize_result [of a h lc] by (auto simp: nth_append)

theorem synopsize_keeps_input_witness:
  "(0::nat) < length [[Str (js ''b''), Str (js '' ''), Str (js ''a'')]]
   \<and> (\<exists>h' r. synopsize compareCodeUnits [[Str (js ''b''), Str (js '' ''), Str (js ''a'')]] 0 = Inr (h', r)
         \<and> values r = 0 \<and> h' ! 0 = [Str (js ''b''), Str (js '' ''), Str (js ''a'')]
         \<and> nonEmptyValues r \<noteq> 0)"
  using synopsize_keeps_input [of 0 "[[Str (js ''b''), Str (js '' ''), Str (js ''a'')]]" compareCodeUnits]
  by auto

text \<open>
  C10. The array that \<^verbatim>\<open>filter\<close> made is sorted in place: \<^verbatim>\<open>sort\<close> returns the reference
  it was called on, and this reference is the field \<open>nonEmptyValues\<close> of the result. So
  the array \<open>nonEmptyValues\<close> is in ascending order of the comparator of the inferred
  type, and \<open>minimum\<close> and \<open>maximum\<close> are read at its two ends. The collation of the
  host is taken to be a consistent comparator, as ECMAScript requires.
\<close>

theorem synopsize_sorts_in_place:
  "consistent_collation lc \<Longrightarrow> a < length h \<Longrightarrow>
     \<exists>h1 ne h2 sorted r.
       Array_filter (\<lambda>v. \<not> isEmpty (Str (String v))) h a = (h1, ne)
       \<and> Array_sort (compareFunction (inferType lc (h1 ! ne))) h1 ne = Inr (h2, sorted)
       \<and> sorted = ne
       \<and> synopsize lc h a = Inr (h2, r) \<and> nonEmptyValues r = ne
       \<and> sorted_wrt (notAfter (compareFunction (inferType lc (h1 ! ne)))) (h2 ! nonEmptyValues r)
       \<and> minimum r = Array_get h2 (nonEmptyValues r) 0
       \<and> maximum r = Array_get h2 (nonEmptyValues r) (int (length (h2 ! nonEmptyValues r)) - 1)"
proof -
  assume c: "consistent_collation lc" and a: "a < length h"
  let ?ne = "present (h ! a)"
  let ?cmp = "compareFunction (inferType lc ?ne)"
  from sortValues_inferType [OF c, of ?ne] obtain xs where
    s: "sortValues ?cmp ?ne = Inr xs" and srt: "sorted_wrt (notAfter ?cmp) xs"
    by blast
  have f: "Array_filter (\<lambda>v. \<not> isEmpty (Str (String v))) h a = (h @ [?ne], length h)"
    by (simp add: Array_filter_def present_def)
  have st: "Array_sort ?cmp (h @ [?ne]) (length h) = Inr (h @ [xs], length h)"
    by (simp add: Array_sort_def s)
  have r: "synopsize lc h a =
         Inr (h @ [xs],
              \<lparr>typeName = id' (inferType lc ?ne), values = a,
               nonEmptyValues = length h,
               minimum = Array_get (h @ [xs]) (length h) 0,
               maximum = Array_get (h @ [xs]) (length h) (int (length ((h @ [xs]) ! length h)) - 1),
               counts = count ((h @ [xs]) ! length h)\<rparr>)"
    using f st by (simp add: synopsize_def)
  show ?thesis
    by (intro exI [of _ "h @ [?ne]"] exI [of _ "length h"] exI [of _ "h @ [xs]"]
        exI [of _ "length h"]
        exI [of _ "\<lparr>typeName = id' (inferType lc ?ne), values = a,
               nonEmptyValues = length h,
               minimum = Array_get (h @ [xs]) (length h) 0,
               maximum = Array_get (h @ [xs]) (length h) (int (length ((h @ [xs]) ! length h)) - 1),
               counts = count ((h @ [xs]) ! length h)\<rparr>"])
      (simp add: f st r srt)
qed

theorem synopsize_sorts_in_place_witness:
  "consistent_collation compareCodeUnits
   \<and> (0::nat) < length [[Str (js ''9''), Str (js ''10''), Str (js ''2'')]]
   \<and> (\<exists>h2 r. synopsize compareCodeUnits [[Str (js ''9''), Str (js ''10''), Str (js ''2'')]] 0 = Inr (h2, r)
        \<and> sorted_wrt (notAfter (compareFunction (inferType compareCodeUnits
              [Str (js ''9''), Str (js ''10''), Str (js ''2'')]))) (h2 ! nonEmptyValues r)
        \<and> h2 ! nonEmptyValues r = [Str (js ''2''), Str (js ''9''), Str (js ''10'')])"
proof -
  let ?h = "[[Str (js ''9''), Str (js ''10''), Str (js ''2'')]]"
  have p: "filter (\<lambda>v. \<not> isEmpty (Str (String v))) [Str (js ''9''), Str (js ''10''), Str (js ''2'')]
      = [Str (js ''9''), Str (js ''10''), Str (js ''2'')]"
    by code_simp
  from synopsize_sorts_in_place [OF consistent_compareCodeUnits, of 0 ?h]
  obtain h1 ne h2 r where
    f: "Array_filter (\<lambda>v. \<not> isEmpty (Str (String v))) ?h 0 = (h1, ne)"
    and r: "synopsize compareCodeUnits ?h 0 = Inr (h2, r)"
    and s: "sorted_wrt (notAfter (compareFunction (inferType compareCodeUnits (h1 ! ne)))) (h2 ! nonEmptyValues r)"
    by auto
  from f p have "h1 ! ne = [Str (js ''9''), Str (js ''10''), Str (js ''2'')]"
    by (auto simp: Array_filter_def)
  moreover from r synopsize_9_10_2 [of 0 ?h compareCodeUnits]
  have "h2 ! nonEmptyValues r = [Str (js ''2''), Str (js ''9''), Str (js ''10'')]" by auto
  ultimately show ?thesis using r s consistent_compareCodeUnits by auto
qed

end
